theory Spec2Isabelle
  imports Complex_Main "HOL-Library.Word"
begin

unbundle bit_operations_syntax

section \<open>Double precision numbers\<close>

text \<open>
  A C \<^verbatim>\<open>double\<close> is a finite number, an infinity or a NaN (IEEE 754 binary64). A
  finite double is kept as the real number it stands for. The numbers the program is
  given (event times, loop times, the speed) are doubles; each arithmetic operation
  rounds its exact result to the nearest double, ties to the even one. The sign of a
  zero is not kept: the player neither divides by a position nor prints one. Every double
  is a value of the type; the type also has the values \<open>Fin r\<close> for the reals \<open>r\<close> that are
  not doubles, and what is proved for all values holds for the doubles among them.
\<close>

datatype double = Fin real | PInf | NInf | NaN

text \<open>\<open>ilog2 n\<close> is the position of the highest bit of \<open>n\<close>: \<open>2 ^ ilog2 n \<le> n < 2 ^ (ilog2 n + 1)\<close>.\<close>

function ilog2 :: "int \<Rightarrow> int" where
  "ilog2 n = (if n < 2 then 0 else 1 + ilog2 (n div 2))"
  by pat_completeness auto
termination
proof (relation "measure nat")
  show "wf (measure nat)" by simp
next
  fix n :: int
  assume "\<not> n < 2"
  then have "n div 2 < n" and "0 < n" by linarith+
  then have "nat (n div 2) < nat n" by linarith
  then show "(n div 2, n) \<in> measure nat" by simp
qed

declare ilog2.simps [simp del]

text \<open>The power of two of an integer exponent.\<close>

definition pow2 :: "int \<Rightarrow> real" where
  "pow2 q = (if 0 \<le> q then 2 ^ nat q else 1 / 2 ^ nat (- q))"

text \<open>
  The binary exponent of a real other than 0: \<open>pow2 (bexp r) \<le> \<bar>r\<bar> < pow2 (bexp r + 1)\<close>.
\<close>

definition bexp :: "real \<Rightarrow> int" where
  "bexp r =
     (if 1 \<le> \<bar>r\<bar> then ilog2 \<lfloor>\<bar>r\<bar>\<rfloor>
      else - (1 + ilog2 (\<lceil>1 / \<bar>r\<bar>\<rceil> - 1)))"

text \<open>The nearest integer, the even one of two that are equally near.\<close>

definition round_even :: "real \<Rightarrow> int" where
  "round_even x =
     (let f = \<lfloor>x\<rfloor>; d = x - of_int f
      in if d < 1 / 2 then f else if 1 / 2 < d then f + 1 else if even f then f else f + 1)"

text \<open>
  Rounding to a double: 53 significant bits, so the last bit of \<open>r\<close> has the exponent
  \<open>bexp r - 52\<close>, and not less than -1074 (subnormal numbers); \<open>r\<close> is rounded to a
  multiple \<open>n\<close> of that power of two. A result of \<open>2 ^ 1024\<close> or more, that is
  \<open>1024 \<le> q + ilog2 \<bar>n\<bar>\<close>, is an infinity.
\<close>

definition dround :: "real \<Rightarrow> double" where
  "dround r =
     (if r = 0 then Fin 0
      else (let q = max (bexp r - 52) (- 1074);
                n = round_even (r / pow2 q)
            in if n \<noteq> 0 \<and> 1024 \<le> q + ilog2 \<bar>n\<bar> then (if 0 < r then PInf else NInf)
               else Fin (of_int n * pow2 q)))"

text \<open>Negation, addition, multiplication and the comparisons of doubles.\<close>

fun dneg :: "double \<Rightarrow> double" where
  "dneg (Fin a) = Fin (- a)"
| "dneg PInf = NInf"
| "dneg NInf = PInf"
| "dneg NaN = NaN"

fun dadd :: "double \<Rightarrow> double \<Rightarrow> double" where
  "dadd (Fin a) (Fin b) = dround (a + b)"
| "dadd NaN y = NaN"
| "dadd x NaN = NaN"
| "dadd PInf NInf = NaN"
| "dadd NInf PInf = NaN"
| "dadd PInf y = PInf"
| "dadd NInf y = NInf"
| "dadd x PInf = PInf"
| "dadd x NInf = NInf"

definition dinf :: "bool \<Rightarrow> double" where
  "dinf positive = (if positive then PInf else NInf)"

fun dmul :: "double \<Rightarrow> double \<Rightarrow> double" where
  "dmul (Fin a) (Fin b) = dround (a * b)"
| "dmul NaN y = NaN"
| "dmul x NaN = NaN"
| "dmul (Fin a) PInf = (if a = 0 then NaN else dinf (0 < a))"
| "dmul (Fin a) NInf = (if a = 0 then NaN else dinf (a < 0))"
| "dmul PInf (Fin b) = (if b = 0 then NaN else dinf (0 < b))"
| "dmul NInf (Fin b) = (if b = 0 then NaN else dinf (b < 0))"
| "dmul PInf PInf = PInf"
| "dmul NInf NInf = PInf"
| "dmul PInf NInf = NInf"
| "dmul NInf PInf = NInf"

fun dlt :: "double \<Rightarrow> double \<Rightarrow> bool" where
  "dlt (Fin a) (Fin b) = (a < b)"
| "dlt NaN y = False"
| "dlt x NaN = False"
| "dlt NInf NInf = False"
| "dlt NInf y = True"
| "dlt x PInf = (x \<noteq> PInf)"
| "dlt x y = False"

fun dle :: "double \<Rightarrow> double \<Rightarrow> bool" where
  "dle (Fin a) (Fin b) = (a \<le> b)"
| "dle NaN y = False"
| "dle x NaN = False"
| "dle NInf y = True"
| "dle x PInf = True"
| "dle x y = False"

text \<open>
  The operations of the C source on doubles are written \<open>+\<close>, \<open>-\<close>, \<open>*\<close>, \<open><\<close> and \<open>\<le>\<close>;
  the constants 0 and 1 are doubles.
\<close>

instantiation double :: "{zero, one, plus, minus, times, ord}"
begin

definition zero_double_def: "(0 :: double) = Fin 0"

definition one_double_def: "(1 :: double) = Fin 1"

definition plus_double_def: "(a :: double) + b = dadd a b"

definition minus_double_def: "(a :: double) - b = dadd a (dneg b)"

definition times_double_def: "(a :: double) * b = dmul a b"

definition less_double_def: "(a :: double) < b \<longleftrightarrow> dlt a b"

definition less_eq_double_def: "(a :: double) \<le> b \<longleftrightarrow> dle a b"

instance ..

end

section \<open>Data model\<close>

text \<open>
  The player of \<^verbatim>\<open>fmidi_player.cc\<close> is embedded as state-passing functions on
  records. A C \<^verbatim>\<open>double\<close> (\<^verbatim>\<open>timepos\<close>, \<^verbatim>\<open>speed\<close>, \<^verbatim>\<open>ev_tstamp\<close>, event times) is
  a \<^typ>\<open>double\<close>; a \<^verbatim>\<open>uint8_t\<close> is an \<^typ>\<open>8 word\<close>; a function pointer is
  a \<^typ>\<open>nat option\<close> (\<^term>\<open>None\<close> is \<^verbatim>\<open>nullptr\<close>) and the \<^verbatim>\<open>void *\<close> user data
  a \<^typ>\<open>nat\<close>.
\<close>

type_synonym tstamp = double
type_synonym byte = "8 word"
type_synonym fnptr = "nat option"
type_synonym voidptr = nat

text \<open>
  Modelled from the spec: the declarations of \<^verbatim>\<open>fmidi.h\<close> (\<^verbatim>\<open>fmidi_event_t\<close>,
  \<^verbatim>\<open>fmidi_event_type_t\<close>, \<^verbatim>\<open>fmidi_seq_event_t\<close>) are not among the sources. An event
  is a tagged value with a delta time and a payload; the payload kinds are channel
  message, meta and system-exclusive. The byte array \<^verbatim>\<open>data\<close> is the list of its
  \<^verbatim>\<open>datalen\<close> bytes, so \<^verbatim>\<open>datalen\<close> is the length of that list.
\<close>

datatype fmidi_event_type = fmidi_event_meta | fmidi_event_message | fmidi_event_sysex

record fmidi_event =
  type :: fmidi_event_type
  delta :: nat
  data :: "byte list"

definition datalen :: "fmidi_event \<Rightarrow> nat" where
  "datalen evt = length (data evt)"

record fmidi_seq_event =
  time :: tstamp
  event :: fmidi_event

text \<open>
  Modelled from the spec: the sequence (\<^verbatim>\<open>fmidi_seq_t\<close> with \<^verbatim>\<open>fmidi_seq_peek_event\<close>,
  \<^verbatim>\<open>fmidi_seq_next_event\<close>, \<^verbatim>\<open>fmidi_seq_rewind\<close>) is not among the sources. The spec
  describes it as an ordered, rewindable cursor over time-stamped events that exposes
  peek, advance and rewind: the events are a list and the cursor an index into it.
  An exhausted sequence answers \<^verbatim>\<open>false\<close> and leaves the output argument alone.
\<close>

record fmidi_seq =
  seq_events :: "fmidi_seq_event list"
  seq_pos :: nat

text \<open>Modelled from the spec: \<^verbatim>\<open>fmidi_seq_peek_event\<close>, the event at the cursor, if any.\<close>

definition fmidi_seq_peek_event :: "fmidi_seq \<Rightarrow> fmidi_seq_event option" where
  "fmidi_seq_peek_event s =
     (if seq_pos s < length (seq_events s) then Some (seq_events s ! seq_pos s) else None)"

text \<open>
  Modelled from the spec: \<^verbatim>\<open>fmidi_seq_next_event\<close>, the event at the cursor, if any, and
  the cursor moved past it.
\<close>

definition fmidi_seq_next_event :: "fmidi_seq \<Rightarrow> fmidi_seq_event option \<times> fmidi_seq" where
  "fmidi_seq_next_event s =
     (case fmidi_seq_peek_event s of
        None \<Rightarrow> (None, s)
      | Some e \<Rightarrow> (Some e, s\<lparr>seq_pos := seq_pos s + 1\<rparr>))"

text \<open>Modelled from the spec: \<^verbatim>\<open>fmidi_seq_rewind\<close>, the cursor back at the start.\<close>

definition fmidi_seq_rewind :: "fmidi_seq \<Rightarrow> fmidi_seq" where
  "fmidi_seq_rewind s = s\<lparr>seq_pos := 0\<rparr>"

text \<open>\<^verbatim>\<open>struct fmidi_player_context\<close> (the back pointer \<^verbatim>\<open>plr\<close> is the enclosing record).\<close>

record fmidi_player_context =
  seq :: fmidi_seq
  timepos :: tstamp
  speed :: double
  prev_tick :: tstamp
  have_tick :: bool
  have_event :: bool
  sqevt :: fmidi_seq_event
  cbfn :: fnptr
  cbdata :: voidptr
  finifn :: fnptr
  finidata :: voidptr

text \<open>
  \<^verbatim>\<open>struct fmidi_player\<close>. Of the libev timer the model keeps whether it is started in
  the loop (\<^verbatim>\<open>ev_timer_start\<close> sets it, \<^verbatim>\<open>ev_timer_stop\<close> clears it) and its repeat
  interval.
\<close>

record fmidi_player =
  timer_active :: bool
  timer_repeat :: double
  running :: bool
  ctx :: fmidi_player_context

text \<open>
  A callback is user code that receives the player through its user data, so it may call
  back into the player: it is a function on the player and the user's own state. The
  table \<open>host\<close> gives the code behind each function pointer. The field \<open>calls\<close> of the
  world is a history of the callback invocations made by the player; no callback can
  write it.
\<close>

datatype callrec = EvCall nat voidptr fmidi_event | FinCall nat voidptr

record 'u host =
  evfn :: "nat \<Rightarrow> fmidi_event \<Rightarrow> voidptr \<Rightarrow> fmidi_player \<times> 'u \<Rightarrow> fmidi_player \<times> 'u"
  fifn :: "nat \<Rightarrow> voidptr \<Rightarrow> fmidi_player \<times> 'u \<Rightarrow> fmidi_player \<times> 'u"

record 'u world =
  plr :: fmidi_player
  user :: 'u
  calls :: "callrec list"

definition call_evfn :: "'u host \<Rightarrow> nat \<Rightarrow> fmidi_event \<Rightarrow> voidptr \<Rightarrow> 'u world \<Rightarrow> 'u world" where
  "call_evfn H f evt d w =
     (let r = evfn H f evt d (plr w, user w)
      in w\<lparr>plr := fst r, user := snd r, calls := calls w @ [EvCall f d evt]\<rparr>)"

definition call_fifn :: "'u host \<Rightarrow> nat \<Rightarrow> voidptr \<Rightarrow> 'u world \<Rightarrow> 'u world" where
  "call_fifn H f d w =
     (let r = fifn H f d (plr w, user w)
      in w\<lparr>plr := fst r, user := snd r, calls := calls w @ [FinCall f d]\<rparr>)"

section \<open>The player\<close>

text \<open>
  \<^verbatim>\<open>fmidi_seq_next_event(&seq, &sqevt)\<close> on the context: \<^verbatim>\<open>seq\<close> and \<^verbatim>\<open>sqevt\<close> are
  references into the context, so the call reads and writes the context as it is now.
\<close>

definition ctx_next_event :: "'u world \<Rightarrow> bool \<times> 'u world" where
  "ctx_next_event w =
     (let c = ctx (plr w); r = fmidi_seq_next_event (seq c)
      in case fst r of
           None \<Rightarrow> (False, w\<lparr>plr := (plr w)\<lparr>ctx := c\<lparr>seq := snd r\<rparr>\<rparr>\<rparr>)
         | Some e \<Rightarrow> (True, w\<lparr>plr := (plr w)\<lparr>ctx := c\<lparr>seq := snd r, sqevt := e\<rparr>\<rparr>\<rparr>))"

text \<open>
  One iteration of the loop of \<^verbatim>\<open>fmidi_player_tick\<close> (lines 54 to 57): the pending
  event goes to the callback held in the local \<^verbatim>\<open>cbfn\<close>, then the next event is read.
  The result is the new value of \<^verbatim>\<open>have_event\<close> and \<^verbatim>\<open>more\<close>, and the world.
\<close>

definition tick_body :: "'u host \<Rightarrow> fnptr \<Rightarrow> voidptr \<Rightarrow> 'u world \<Rightarrow> bool \<times> 'u world" where
  "tick_body H cbfn0 cbdata0 w =
     (let evt = event (sqevt (ctx (plr w)))
      in ctx_next_event (case cbfn0 of None \<Rightarrow> w | Some f \<Rightarrow> call_evfn H f evt cbdata0 w))"

text \<open>
  The loop of \<^verbatim>\<open>fmidi_player_tick\<close> (lines 53 to 58). The locals \<^verbatim>\<open>cbfn\<close>, \<^verbatim>\<open>cbdata\<close>,
  \<^verbatim>\<open>timepos\<close>, \<^verbatim>\<open>more\<close> and \<^verbatim>\<open>have_event\<close> are arguments (suffixed, as \<open>more\<close> is a
  constant of records); \<^verbatim>\<open>seq\<close> and \<^verbatim>\<open>sqevt\<close> are read from the world. A callback that
  rewinds the sequence can keep the loop running for ever: \<^term>\<open>None\<close> is a loop that
  does not return.
\<close>

partial_function (option) tick_loop ::
  "'u host \<Rightarrow> fnptr \<Rightarrow> voidptr \<Rightarrow> tstamp \<Rightarrow> bool \<Rightarrow> bool \<Rightarrow> 'u world \<Rightarrow> (bool \<times> bool \<times> 'u world) option"
where
  "tick_loop H cbfn0 cbdata0 timepos0 more0 have_event0 w =
     (if more0 \<and> timepos0 > time (sqevt (ctx (plr w))) then
        (let r = tick_body H cbfn0 cbdata0 w
         in tick_loop H cbfn0 cbdata0 timepos0 (fst r) (fst r) (snd r))
      else Some (more0, have_event0, w))"

declare tick_loop.simps [code]

text \<open>
  The end of \<^verbatim>\<open>fmidi_player_tick\<close> (lines 66 to 71), once the locals are written back:
  when no event is left the timer is stopped, the flag cleared and then the finish
  callback called, with the pointer the context holds at that moment.
\<close>

definition tick_end :: "'u host \<Rightarrow> bool \<Rightarrow> 'u world \<Rightarrow> 'u world" where
  "tick_end H more0 w =
     (if \<not> more0 then
        (let w4 = w\<lparr>plr := (plr w)\<lparr>timer_active := False, running := False\<rparr>\<rparr>
         in case finifn (ctx (plr w4)) of
              None \<Rightarrow> w4
            | Some g \<Rightarrow> call_fifn H g (finidata (ctx (plr w4))) w4)
      else w)"

text \<open>\<^verbatim>\<open>fmidi_player_tick\<close>, with \<^verbatim>\<open>ev_now(loop)\<close> as the argument \<open>now\<close>.\<close>

definition fmidi_player_tick :: "'u host \<Rightarrow> tstamp \<Rightarrow> 'u world \<Rightarrow> 'u world option" where
  "fmidi_player_tick H now w =
     (let c = ctx (plr w);
          cbfn0 = cbfn c;
          cbdata0 = cbdata c;
          timepos0 = timepos c;
          have_event0 = have_event c;
          timepos1 = (if have_tick c then timepos0 + speed c * (now - prev_tick c) else timepos0);
          r = (if have_event0 then (True, w) else ctx_next_event w);
          more1 = fst r;
          w1 = snd r
      in case (if more1 then tick_loop H cbfn0 cbdata0 timepos1 more1 True w1
               else Some (more1, have_event0, w1)) of
           None \<Rightarrow> None
         | Some (more2, have_event2, w2) \<Rightarrow>
             Some (tick_end H more2
               (w2\<lparr>plr := (plr w2)\<lparr>ctx := (ctx (plr w2))
                  \<lparr>have_event := have_event2, have_tick := True,
                   prev_tick := now, timepos := timepos1\<rparr>\<rparr>\<rparr>)))"

text \<open>
  Modelled from the spec: the host loop (libev) is not code of this repository. It runs
  the timer's callback periodically while the timer is started and not at all once it is
  stopped. \<open>ev_run\<close> is the loop over the times \<open>nows\<close> at which the timer would fire.
\<close>

fun ev_run :: "'u host \<Rightarrow> tstamp list \<Rightarrow> 'u world \<Rightarrow> 'u world option" where
  "ev_run H [] w = Some w"
| "ev_run H (now # nows) w =
     (if timer_active (plr w) then
        (case fmidi_player_tick H now w of None \<Rightarrow> None | Some w' \<Rightarrow> ev_run H nows w')
      else ev_run H nows w)"

text \<open>
  \<^verbatim>\<open>fmidi_player_new\<close>. The sequence is made from the events of the file; \<^verbatim>\<open>prev_tick\<close>
  and \<^verbatim>\<open>sqevt\<close> are left uninitialised by the source and are arguments here. The
  constant \<^verbatim>\<open>1e-3\<close> is the double nearest to 1/1000.
\<close>

definition fmidi_player_new ::
  "fmidi_seq_event list \<Rightarrow> tstamp \<Rightarrow> fmidi_seq_event \<Rightarrow> fmidi_player" where
  "fmidi_player_new smf prev_tick0 sqevt0 =
     \<lparr>timer_active = False, timer_repeat = dround (1 / 1000), running = False,
      ctx = \<lparr>seq = \<lparr>seq_events = smf, seq_pos = 0\<rparr>, timepos = 0, speed = 1,
             prev_tick = prev_tick0, have_tick = False, have_event = False, sqevt = sqevt0,
             cbfn = None, cbdata = 0, finifn = None, finidata = 0\<rparr>\<rparr>"

definition fmidi_player_start :: "fmidi_player \<Rightarrow> fmidi_player" where
  "fmidi_player_start p =
     (if running p then p
      else (p\<lparr>ctx := (ctx p)\<lparr>have_tick := False\<rparr>\<rparr>)\<lparr>timer_active := True, running := True\<rparr>)"

definition fmidi_player_stop :: "fmidi_player \<Rightarrow> fmidi_player" where
  "fmidi_player_stop p =
     (if \<not> running p then p
      else (p\<lparr>ctx := (ctx p)\<lparr>have_tick := False\<rparr>\<rparr>)\<lparr>timer_active := False, running := False\<rparr>)"

definition fmidi_player_rewind :: "fmidi_player \<Rightarrow> fmidi_player" where
  "fmidi_player_rewind p =
     p\<lparr>ctx := (ctx p)\<lparr>seq := fmidi_seq_rewind (seq (ctx p)), timepos := 0,
                        have_tick := False, have_event := False\<rparr>\<rparr>"

definition fmidi_player_running :: "fmidi_player \<Rightarrow> bool" where
  "fmidi_player_running p = running p"

definition fmidi_player_current_time :: "fmidi_player \<Rightarrow> tstamp" where
  "fmidi_player_current_time p = timepos (ctx p)"

definition fmidi_player_current_speed :: "fmidi_player \<Rightarrow> double" where
  "fmidi_player_current_speed p = speed (ctx p)"

definition fmidi_player_set_speed :: "fmidi_player \<Rightarrow> double \<Rightarrow> fmidi_player" where
  "fmidi_player_set_speed p speed0 = p\<lparr>ctx := (ctx p)\<lparr>speed := speed0\<rparr>\<rparr>"

definition fmidi_player_event_callback :: "fmidi_player \<Rightarrow> fnptr \<Rightarrow> voidptr \<Rightarrow> fmidi_player" where
  "fmidi_player_event_callback p cbfn0 cbdata0 = p\<lparr>ctx := (ctx p)\<lparr>cbfn := cbfn0, cbdata := cbdata0\<rparr>\<rparr>"

definition fmidi_player_finish_callback :: "fmidi_player \<Rightarrow> fnptr \<Rightarrow> voidptr \<Rightarrow> fmidi_player" where
  "fmidi_player_finish_callback p cbfn0 cbdata0 =
     p\<lparr>ctx := (ctx p)\<lparr>finifn := cbfn0, finidata := cbdata0\<rparr>\<rparr>"

text \<open>
  The body of the scan of \<^verbatim>\<open>fmidi_player_goto_time\<close> (lines 169 to 181): what one
  event does to the local arrays \<^verbatim>\<open>programs\<close> and \<^verbatim>\<open>controls\<close>.
\<close>

definition scan_event :: "fmidi_event \<Rightarrow> byte list \<times> byte list \<Rightarrow> byte list \<times> byte list" where
  "scan_event evt pc =
     (if type evt = fmidi_event_message then
        (let status = data evt ! 0
         in if drop_bit 4 status = 0b1100 \<and> datalen evt = 2 then
              (let channel = status AND 0xf
               in ((fst pc)[unat channel := data evt ! 1 AND 127], snd pc))
            else if drop_bit 4 status = 0b1011 \<and> datalen evt = 3 then
              (let channel = status AND 0xf; id0 = data evt ! 1 AND 127
               in (fst pc, (snd pc)[unat channel * 128 + unat id0 := data evt ! 2 AND 127]))
            else pc)
      else pc)"

text \<open>The scan loop (lines 167 to 183): peek, test the time, record, advance.\<close>

function goto_scan :: "tstamp \<Rightarrow> fmidi_seq \<Rightarrow> byte list \<times> byte list \<Rightarrow> fmidi_seq \<times> byte list \<times> byte list" where
  "goto_scan time0 s pc =
     (case fmidi_seq_peek_event s of
        None \<Rightarrow> (s, pc)
      | Some sq \<Rightarrow>
          if time sq < time0 then
            goto_scan time0 (snd (fmidi_seq_next_event s)) (scan_event (event sq) pc)
          else (s, pc))"
  by pat_completeness auto
termination
  by (relation "measure (\<lambda>(t, s, pc). length (seq_events s) - seq_pos s)")
     (auto simp: fmidi_seq_peek_event_def fmidi_seq_next_event_def split: if_splits)

text \<open>
  \<^verbatim>\<open>ctx.cbfn(evt, ctx.cbdata)\<close> in \<^verbatim>\<open>fmidi_player_goto_time\<close>: the pointer is read from
  the context at each call. \<^term>\<open>None\<close> is a call through a null pointer.
\<close>

definition emit :: "'u host \<Rightarrow> fmidi_event \<Rightarrow> 'u world \<Rightarrow> 'u world option" where
  "emit H evt w =
     (case cbfn (ctx (plr w)) of
        None \<Rightarrow> None
      | Some f \<Rightarrow> Some (call_evfn H f evt (cbdata (ctx (plr w))) w))"

text \<open>
  The event written into \<^verbatim>\<open>evtbuf\<close> before a call: type and delta are set once (lines
  190 and 191), the status byte is \<^verbatim>\<open>(kind << 4) | c\<close> stored into a \<^verbatim>\<open>uint8_t\<close>.
\<close>

definition synth :: "nat \<Rightarrow> nat \<Rightarrow> byte list \<Rightarrow> fmidi_event" where
  "synth kind c args =
     \<lparr>type = fmidi_event_message, delta = 0,
      data = (word_of_nat (push_bit 4 kind OR c) :: byte) # args\<rparr>"

text \<open>The loop over the controller ids of one channel (lines 212 to 221).\<close>

fun goto_controls :: "'u host \<Rightarrow> byte list \<Rightarrow> nat \<Rightarrow> nat list \<Rightarrow> 'u world \<Rightarrow> 'u world option" where
  "goto_controls H controls c [] w = Some w"
| "goto_controls H controls c (id0 # ids) w =
     (let val = controls ! (c * 128 + id0)
      in if val < 128 then
           Option.bind (emit H (synth 0b1011 c [word_of_nat id0, val]) w)
             (goto_controls H controls c ids)
         else goto_controls H controls c ids w)"

text \<open>The loop over the channels (lines 193 to 222).\<close>

fun goto_channels :: "'u host \<Rightarrow> byte list \<Rightarrow> byte list \<Rightarrow> nat list \<Rightarrow> 'u world \<Rightarrow> 'u world option" where
  "goto_channels H programs controls [] w = Some w"
| "goto_channels H programs controls (c # cs) w =
     Option.bind (emit H (synth 0b1011 c [120, 0]) w) (\<lambda>w1.
     Option.bind (emit H (synth 0b1011 c [121, 0]) w1) (\<lambda>w2.
     Option.bind (emit H (synth 0b1100 c [programs ! c]) w2) (\<lambda>w3.
     Option.bind (goto_controls H controls c [0..<128] w3)
       (goto_channels H programs controls cs))))"

text \<open>\<^verbatim>\<open>fmidi_player_goto_time\<close>.\<close>

definition fmidi_player_goto_time :: "'u host \<Rightarrow> tstamp \<Rightarrow> 'u world \<Rightarrow> 'u world option" where
  "fmidi_player_goto_time H time0 w =
     (let programs = replicate 16 (0 :: byte);
          controls = replicate (16 * 128) (255 :: byte);
          p1 = fmidi_player_rewind (plr w);
          r = goto_scan time0 (seq (ctx p1)) (programs, controls);
          p2 = p1\<lparr>ctx := (ctx p1)\<lparr>seq := fst r\<rparr>\<rparr>;
          p3 = p2\<lparr>ctx := (ctx p2)\<lparr>timepos := time0\<rparr>\<rparr>;
          w3 = w\<lparr>plr := p3\<rparr>
      in if cbfn (ctx p3) \<noteq> None then
           goto_channels H (fst (snd r)) (snd (snd r)) [0..<16] w3
         else Some w3)"

section \<open>Notions used in the statements\<close>

text \<open>
  The events the player has still to deliver: the event in the look-ahead slot, when
  \<^verbatim>\<open>have_event\<close> says there is one, and then the events from the cursor on.
\<close>

definition pend :: "bool \<Rightarrow> fmidi_player_context \<Rightarrow> fmidi_seq_event list" where
  "pend he c = (if he then [sqevt c] else []) @ drop (seq_pos (seq c)) (seq_events (seq c))"

definition pending :: "fmidi_player \<Rightarrow> fmidi_seq_event list" where
  "pending p = pend (have_event (ctx p)) (ctx p)"

text \<open>
  A callback that does not call back into the player leaves the player as it is (it may
  do what it likes with the user's state).
\<close>

definition ev_passive :: "'u host \<Rightarrow> bool" where
  "ev_passive H = (\<forall>f evt d p u. fst (evfn H f evt d (p, u)) = p)"

definition fini_passive :: "'u host \<Rightarrow> bool" where
  "fini_passive H = (\<forall>f d p u. fst (fifn H f d (p, u)) = p)"

text \<open>
  An event callback may call back into the player at some invocations and not at others,
  as the user's state and the event tell it. It leaves the player alone on the user states
  \<open>I\<close> and the events \<open>S\<close> when, called from a user state in \<open>I\<close> with an event of \<open>S\<close>, it
  returns the player as it was and a user state in \<open>I\<close>. It calls \<open>g\<close> (an entry point of the
  player) at the event \<open>evt\<close> from the user states \<open>A\<close> when, called from a user state in \<open>A\<close>
  with this event, it returns the player that \<open>g\<close> makes, and a user state in \<open>I\<close>.
\<close>

definition ev_passive_on :: "('u \<Rightarrow> bool) \<Rightarrow> fmidi_event set \<Rightarrow> 'u host \<Rightarrow> bool" where
  "ev_passive_on I S H =
     (\<forall>f evt d p u. I u \<and> evt \<in> S \<longrightarrow>
        fst (evfn H f evt d (p, u)) = p \<and> I (snd (evfn H f evt d (p, u))))"


text \<open>The invocations that delivering the events \<open>evs\<close> to the callback adds to the history.\<close>

definition delivered :: "fnptr \<Rightarrow> voidptr \<Rightarrow> fmidi_seq_event list \<Rightarrow> callrec list" where
  "delivered cbfn0 cbdata0 evs =
     (case cbfn0 of None \<Rightarrow> [] | Some f \<Rightarrow> map (\<lambda>x. EvCall f cbdata0 (event x)) evs)"

definition fin_calls :: "fnptr \<Rightarrow> voidptr \<Rightarrow> callrec list" where
  "fin_calls finifn0 finidata0 = (case finifn0 of None \<Rightarrow> [] | Some g \<Rightarrow> [FinCall g finidata0])"

fun is_fin :: "callrec \<Rightarrow> bool" where
  "is_fin (FinCall g d) = True"
| "is_fin (EvCall f d evt) = False"

text \<open>
  The tick as sections 4.1 and 4.2 of the specification describe it, on what a tick can
  observe of a player: the pending events, the position, the speed, the previous tick if
  there is one, the callbacks, the timer and the running flag.
\<close>

record pview =
  v_pending :: "fmidi_seq_event list"
  v_timepos :: tstamp
  v_speed :: double
  v_base :: "tstamp option"
  v_cbfn :: fnptr
  v_cbdata :: voidptr
  v_finifn :: fnptr
  v_finidata :: voidptr
  v_timer :: bool
  v_running :: bool

definition view :: "fmidi_player \<Rightarrow> pview" where
  "view p =
     \<lparr>v_pending = pending p, v_timepos = timepos (ctx p), v_speed = speed (ctx p),
      v_base = (if have_tick (ctx p) then Some (prev_tick (ctx p)) else None),
      v_cbfn = cbfn (ctx p), v_cbdata = cbdata (ctx p),
      v_finifn = finifn (ctx p), v_finidata = finidata (ctx p),
      v_timer = timer_active p, v_running = running p\<rparr>"

definition spec_clock :: "tstamp \<Rightarrow> pview \<Rightarrow> tstamp" where
  "spec_clock now v =
     (case v_base v of None \<Rightarrow> v_timepos v
      | Some prev \<Rightarrow> v_timepos v + v_speed v * (now - prev))"

definition spec_tick :: "tstamp \<Rightarrow> pview \<Rightarrow> pview \<times> callrec list" where
  "spec_tick now v =
     (let tp = spec_clock now v;
          due = takeWhile (\<lambda>x. time x < tp) (v_pending v);
          rest = dropWhile (\<lambda>x. time x < tp) (v_pending v)
      in (v\<lparr>v_pending := rest, v_timepos := tp, v_base := Some now,
            v_timer := v_timer v \<and> rest \<noteq> [], v_running := v_running v \<and> rest \<noteq> []\<rparr>,
          delivered (v_cbfn v) (v_cbdata v) due @
          (if rest = [] then fin_calls (v_finifn v) (v_finidata v) else [])))"

fun spec_run :: "tstamp list \<Rightarrow> pview \<Rightarrow> pview \<times> callrec list" where
  "spec_run [] v = (v, [])"
| "spec_run (now # nows) v =
     (if v_timer v then
        (let r = spec_tick now v; r' = spec_run nows (fst r) in (fst r', snd r @ snd r'))
      else spec_run nows v)"

text \<open>Worked example: a program change at 1, a controller change at 2, a note at 3.\<close>

definition ex_events :: "fmidi_seq_event list" where
  "ex_events =
     [\<lparr>time = 1, event = \<lparr>type = fmidi_event_message, delta = 0, data = [0xC0, 5]\<rparr>\<rparr>,
      \<lparr>time = Fin 2, event = \<lparr>type = fmidi_event_message, delta = 480, data = [0xB0, 7, 64]\<rparr>\<rparr>,
      \<lparr>time = Fin 3, event = \<lparr>type = fmidi_event_message, delta = 480, data = [0x90, 60, 100]\<rparr>\<rparr>,
      \<lparr>time = Fin 3, event = \<lparr>type = fmidi_event_message, delta = 0, data = [0x91, 64, 100]\<rparr>\<rparr>]"

text \<open>Callbacks that count their calls in the user's state and leave the player alone.\<close>

definition H_count :: "nat host" where
  "H_count = \<lparr>evfn = (\<lambda>f evt d pu. (fst pu, Suc (snd pu))), fifn = (\<lambda>f d pu. pu)\<rparr>"

definition ex_player :: fmidi_player where
  "ex_player =
     fmidi_player_start
       (fmidi_player_finish_callback
          (fmidi_player_event_callback (fmidi_player_new ex_events 0 (hd ex_events)) (Some 1) 7)
          (Some 2) 8)"

definition ex_world :: "nat world" where
  "ex_world = \<lparr>plr = ex_player, user = 0, calls = []\<rparr>"

text \<open>The example player in the middle of playback: a previous tick at 10.\<close>

definition ex_mid :: "nat world" where
  "ex_mid = ex_world\<lparr>plr := ex_player\<lparr>ctx := (ctx ex_player)\<lparr>have_tick := True, prev_tick := Fin 10\<rparr>\<rparr>\<rparr>"

text \<open>
  A finish callback that asks the player whether it is running, notes the answer in the
  user's state, and starts the player again.
\<close>

definition fini_restart ::
  "(bool \<Rightarrow> 'u \<Rightarrow> 'u) \<Rightarrow> voidptr \<Rightarrow> fmidi_player \<times> 'u \<Rightarrow> fmidi_player \<times> 'u" where
  "fini_restart note d pu =
     (fmidi_player_start (fst pu), note (fmidi_player_running (fst pu)) (snd pu))"

definition H_restart :: "bool list host" where
  "H_restart = \<lparr>evfn = (\<lambda>f evt d pu. pu), fifn = (\<lambda>g. fini_restart (#))\<rparr>"


definition rw_after :: "nat world" where
  "rw_after =
     \<lparr>plr = \<lparr>timer_active = True, timer_repeat = dround (1 / 1000), running = True,
             ctx = \<lparr>seq = \<lparr>seq_events = ex_events, seq_pos = 2\<rparr>, timepos = Fin (3 / 2), speed = 1,
                    prev_tick = Fin (23 / 2), have_tick = True, have_event = True,
                    sqevt = ex_events ! 1, cbfn = Some 1, cbdata = 7,
                    finifn = Some 2, finidata = 8\<rparr>\<rparr>,
      user = 2,
      calls = [EvCall 1 7 (event (ex_events ! 0)), EvCall 1 7 (event (ex_events ! 0))]\<rparr>"


definition ex_restart :: "bool list world" where
  "ex_restart = \<lparr>plr = plr ex_mid, user = [], calls = []\<rparr>"

text \<open>
  The first playback of a file: a new player on the same events, with the speed and the
  callbacks of \<open>p\<close> set, then started.
\<close>

definition first_play :: "fmidi_player \<Rightarrow> tstamp \<Rightarrow> fmidi_seq_event \<Rightarrow> fmidi_player" where
  "first_play p prev_tick0 sqevt0 =
     fmidi_player_start
       (fmidi_player_finish_callback
          (fmidi_player_event_callback
             (fmidi_player_set_speed
                (fmidi_player_new (seq_events (seq (ctx p))) prev_tick0 sqevt0)
                (fmidi_player_current_speed p))
             (cbfn (ctx p)) (cbdata (ctx p)))
          (finifn (ctx p)) (finidata (ctx p)))"

text \<open>
  The snapshot as section 4.4 of the specification words it: the last program change on a
  channel before the target time gives the channel's program (0 when there is none), the
  last change of a controller on a channel gives its value (the "unset" byte 255 when
  there is none); data bytes are masked to seven bits. A program change is a channel
  message of status nibble 1100 with one data byte, a controller change one of status
  nibble 1011 with two.
\<close>

definition is_program_change :: "nat \<Rightarrow> fmidi_event \<Rightarrow> bool" where
  "is_program_change c evt =
     (type evt = fmidi_event_message \<and> datalen evt = 2 \<and>
      drop_bit 4 (data evt ! 0) = 0b1100 \<and> unat (data evt ! 0 AND 0xf) = c)"

definition is_control_change :: "nat \<Rightarrow> nat \<Rightarrow> fmidi_event \<Rightarrow> bool" where
  "is_control_change c i evt =
     (type evt = fmidi_event_message \<and> datalen evt = 3 \<and>
      drop_bit 4 (data evt ! 0) = 0b1011 \<and> unat (data evt ! 0 AND 0xf) = c \<and>
      unat (data evt ! 1 AND 127) = i)"

definition spec_program :: "fmidi_event list \<Rightarrow> nat \<Rightarrow> byte" where
  "spec_program evs c =
     (let xs = filter (is_program_change c) evs
      in if xs = [] then 0 else data (last xs) ! 1 AND 127)"

definition spec_control :: "fmidi_event list \<Rightarrow> nat \<Rightarrow> nat \<Rightarrow> byte" where
  "spec_control evs c i =
     (let xs = filter (is_control_change c i) evs
      in if xs = [] then 255 else data (last xs) ! 2 AND 127)"

text \<open>The scan loop as a fold of its body over the events it passes.\<close>

definition scan_all :: "fmidi_seq_event list \<Rightarrow> byte list \<times> byte list \<Rightarrow> byte list \<times> byte list" where
  "scan_all evs pc = foldl (\<lambda>a x. scan_event (event x) a) pc evs"

text \<open>
  The block of events that the end of the seek sends, in the words of the specification:
  for each channel from 0 to 15 "all sound off" (controller 120, value 0), "reset all
  controllers" (controller 121, value 0), the program, then each controller from 0 to 127
  whose value is set. The status byte has the kind in the high nibble and the channel in
  the low one.
\<close>

definition spec_cc :: "nat \<Rightarrow> byte \<Rightarrow> byte \<Rightarrow> fmidi_event" where
  "spec_cc c i v = \<lparr>type = fmidi_event_message, delta = 0, data = [0xB0 + word_of_nat c, i, v]\<rparr>"

definition spec_pc :: "nat \<Rightarrow> byte \<Rightarrow> fmidi_event" where
  "spec_pc c v = \<lparr>type = fmidi_event_message, delta = 0, data = [0xC0 + word_of_nat c, v]\<rparr>"

definition spec_channel_block :: "(nat \<Rightarrow> byte) \<Rightarrow> (nat \<Rightarrow> nat \<Rightarrow> byte) \<Rightarrow> nat \<Rightarrow> fmidi_event list" where
  "spec_channel_block prog ctl c =
     [spec_cc c 120 0, spec_cc c 121 0, spec_pc c (prog c)] @
     map (\<lambda>i. spec_cc c (word_of_nat i) (ctl c i)) (filter (\<lambda>i. ctl c i \<noteq> 255) [0..<128])"

definition spec_reset_block :: "(nat \<Rightarrow> byte) \<Rightarrow> (nat \<Rightarrow> nat \<Rightarrow> byte) \<Rightarrow> fmidi_event list" where
  "spec_reset_block prog ctl = concat (map (spec_channel_block prog ctl) [0..<16])"

text \<open>What the channel loop of the source sends for the channel \<open>c\<close>.\<close>

definition src_block :: "byte list \<Rightarrow> byte list \<Rightarrow> nat \<Rightarrow> fmidi_event list" where
  "src_block programs controls c =
     [synth 0b1011 c [120, 0], synth 0b1011 c [121, 0], synth 0b1100 c [programs ! c]] @
     map (\<lambda>i. synth 0b1011 c [word_of_nat i, controls ! (c * 128 + i)])
       (filter (\<lambda>i. controls ! (c * 128 + i) < 128) [0..<128])"



section \<open>Properties of doubles\<close>

text \<open>
  The rounding is to a multiple of the power of two that the exponent of the argument
  gives, and moves the argument by at most half of that power.
\<close>

lemma ilog2_nonneg: "0 \<le> ilog2 n"
  by (induction n rule: ilog2.induct) (simp add: ilog2.simps)

lemma ilog2_bounds: "1 \<le> n \<Longrightarrow> 2 ^ nat (ilog2 n) \<le> n \<and> n < 2 ^ nat (ilog2 n + 1)"
proof (induction n rule: ilog2.induct)
  case (1 n)
  show ?case
  proof (cases "n < 2")
    case True
    with 1(2) have "n = 1" by simp
    then show ?thesis by (simp add: ilog2.simps)
  next
    case False
    then have "1 \<le> n div 2" by linarith
    from 1(1) [OF False this] have a: "2 ^ nat (ilog2 (n div 2)) \<le> n div 2"
      and b: "n div 2 < 2 ^ nat (ilog2 (n div 2) + 1)" by simp_all
    have e: "ilog2 n = 1 + ilog2 (n div 2)" using False by (simp add: ilog2.simps)
    have k: "nat (1 + ilog2 (n div 2)) = Suc (nat (ilog2 (n div 2)))"
      "nat (1 + ilog2 (n div 2) + 1) = Suc (Suc (nat (ilog2 (n div 2))))"
      using ilog2_nonneg [of "n div 2"] by linarith+
    have k': "nat (ilog2 (n div 2) + 1) = Suc (nat (ilog2 (n div 2)))"
      using ilog2_nonneg [of "n div 2"] by linarith
    from a have "2 * 2 ^ nat (ilog2 (n div 2)) \<le> n" by linarith
    moreover from b have "n < 2 * (2 * 2 ^ nat (ilog2 (n div 2)))"
      unfolding k' by simp
    ultimately show ?thesis unfolding e k by simp
  qed
qed

lemma pow2_nat: "0 \<le> k \<Longrightarrow> pow2 k = 2 ^ nat k"
  by (simp add: pow2_def)

lemma pow2_neg: "0 \<le> k \<Longrightarrow> pow2 (- k) = 1 / 2 ^ nat k"
  by (cases "k = 0") (simp_all add: pow2_def)

lemma bexp_bounds:
  assumes "r \<noteq> 0"
  shows "pow2 (bexp r) \<le> \<bar>r\<bar> \<and> \<bar>r\<bar> < pow2 (bexp r + 1)"
proof (cases "1 \<le> \<bar>r\<bar>")
  case True
  define n where "n = \<lfloor>\<bar>r\<bar>\<rfloor>"
  have n1: "1 \<le> n" using True by (simp add: n_def le_floor_iff)
  from ilog2_bounds [OF n1] have a: "2 ^ nat (ilog2 n) \<le> n" and b: "n + 1 \<le> 2 ^ nat (ilog2 n + 1)"
    by simp_all
  have e: "bexp r = ilog2 n" using True by (simp add: bexp_def n_def)
  have "real_of_int (2 ^ nat (ilog2 n)) \<le> real_of_int n" using a by (simp only: of_int_le_iff)
  then have "(2 :: real) ^ nat (ilog2 n) \<le> real_of_int n" by simp
  moreover have "real_of_int n \<le> \<bar>r\<bar>" by (simp add: n_def)
  ultimately have "(2 :: real) ^ nat (ilog2 n) \<le> \<bar>r\<bar>" by linarith
  then have 1: "pow2 (ilog2 n) \<le> \<bar>r\<bar>"
    by (simp only: pow2_nat [OF ilog2_nonneg])
  have "\<bar>r\<bar> < real_of_int (n + 1)" unfolding n_def by linarith
  moreover have "real_of_int (n + 1) \<le> real_of_int (2 ^ nat (ilog2 n + 1))"
    using b by (simp only: of_int_le_iff)
  then have "real_of_int (n + 1) \<le> (2 :: real) ^ nat (ilog2 n + 1)" by simp
  ultimately have "\<bar>r\<bar> < (2 :: real) ^ nat (ilog2 n + 1)" by linarith
  moreover have "0 \<le> ilog2 n + 1" using ilog2_nonneg [of n] by linarith
  ultimately have 2: "\<bar>r\<bar> < pow2 (ilog2 n + 1)"
    by (simp only: pow2_nat)
  from 1 2 show ?thesis unfolding e by simp
next
  case False
  define x where "x = 1 / \<bar>r\<bar>"
  define m where "m = \<lceil>x\<rceil> - 1"
  have r0: "0 < \<bar>r\<bar>" using assms by simp
  have x1: "1 < x" using False r0 by (simp add: x_def)
  have m1: "1 \<le> m" using x1 unfolding m_def by linarith
  have mx: "real_of_int m < x" "x \<le> real_of_int (m + 1)" unfolding m_def by linarith+
  from ilog2_bounds [OF m1] have a: "2 ^ nat (ilog2 m) \<le> m" and b: "m + 1 \<le> 2 ^ nat (ilog2 m + 1)"
    by simp_all
  define k where "k = nat (ilog2 m)"
  have kk: "nat (ilog2 m + 1) = Suc k" using ilog2_nonneg [of m] unfolding k_def by linarith
  have e: "bexp r = - (1 + ilog2 m)" using False by (simp add: bexp_def m_def x_def)
  have "real_of_int (2 ^ k) \<le> real_of_int m" using a unfolding k_def by (simp only: of_int_le_iff)
  then have "(2 :: real) ^ k \<le> real_of_int m" by simp
  with mx(1) have lo: "2 ^ k < x" by linarith
  have "real_of_int (m + 1) \<le> real_of_int (2 ^ Suc k)" using b unfolding kk by (simp only: of_int_le_iff)
  then have "real_of_int (m + 1) \<le> (2 :: real) ^ Suc k" by simp
  with mx(2) have hi: "x \<le> 2 ^ Suc k" by linarith
  have p1: "pow2 (- (1 + ilog2 m)) = 1 / 2 ^ Suc k"
    using pow2_neg [of "1 + ilog2 m"] ilog2_nonneg [of m] kk by (simp add: add.commute)
  have p2: "pow2 (- (1 + ilog2 m) + 1) = 1 / 2 ^ k"
    using pow2_neg [of "ilog2 m"] ilog2_nonneg [of m] by (simp add: k_def)
  have rx: "\<bar>r\<bar> = 1 / x" using r0 by (simp add: x_def)
  have x0: "0 < x" using x1 by simp
  have "1 / 2 ^ Suc k \<le> 1 / x" using hi x0 by (simp add: frac_le)
  moreover have "1 / x < 1 / 2 ^ k" using lo x0 by (simp add: frac_less2)
  ultimately show ?thesis unfolding e p1 p2 rx by simp
qed


lemma pow2_pos: "0 < pow2 q"
  by (simp add: pow2_def)

lemma round_even_near: "\<bar>of_int (round_even x) - x\<bar> \<le> 1 / 2"
proof -
  have "of_int \<lfloor>x\<rfloor> \<le> x" "x < of_int \<lfloor>x\<rfloor> + 1" by linarith+
  then show ?thesis by (auto simp add: round_even_def Let_def)
qed

lemma dround_near:
  assumes "dround r = Fin y"
  shows "\<exists>n. y = of_int n * pow2 (max (bexp r - 52) (- 1074)) \<and>
    \<bar>y - r\<bar> \<le> pow2 (max (bexp r - 52) (- 1074)) / 2"
proof (cases "r = 0")
  case True
  with assms have "y = 0" by (simp add: dround_def)
  with True show ?thesis using pow2_pos [of "max (bexp r - 52) (- 1074)"] by (intro exI [of _ 0]) simp
next
  case False
  define q where "q = max (bexp r - 52) (- 1074)"
  define n where "n = round_even (r / pow2 q)"
  have d: "dround r =
      (if n \<noteq> 0 \<and> 1024 \<le> q + ilog2 \<bar>n\<bar> then (if 0 < r then PInf else NInf)
       else Fin (of_int n * pow2 q))"
    using False unfolding dround_def Let_def q_def n_def by (simp only: if_False)
  have y: "y = of_int n * pow2 q"
  proof (cases "n \<noteq> 0 \<and> 1024 \<le> q + ilog2 \<bar>n\<bar>")
    case True
    then have "dround r = PInf \<or> dround r = NInf" unfolding d by (simp only: if_True) metis
    with assms show ?thesis by (metis double.distinct(1,3))
  next
    case False
    then have "dround r = Fin (of_int n * pow2 q)" unfolding d by (simp only: if_False)
    with assms show ?thesis by (simp only: double.inject)
  qed
  have "\<bar>of_int n - r / pow2 q\<bar> \<le> 1 / 2" unfolding n_def by (rule round_even_near)
  then have "\<bar>of_int n - r / pow2 q\<bar> * pow2 q \<le> 1 / 2 * pow2 q"
    using pow2_pos [of q] by (simp only: mult_le_cancel_right_pos)
  moreover have "of_int n * pow2 q - r = (of_int n - r / pow2 q) * pow2 q"
    using pow2_pos [of q] by (simp add: left_diff_distrib)
  then have "\<bar>of_int n * pow2 q - r\<bar> = \<bar>of_int n - r / pow2 q\<bar> * pow2 q"
    using pow2_pos [of q] by (simp only: abs_mult abs_of_pos)
  ultimately have "\<bar>y - r\<bar> \<le> pow2 q / 2" unfolding y by simp
  with y show ?thesis unfolding q_def by blast
qed

text \<open>
  Known values: \<open>2 ^ 53 + 1\<close> lies half way between two doubles and goes to the even one,
  \<open>2 ^ 53 + 3\<close> goes up, and the double nearest to one tenth.
\<close>

lemma dround_examples:
  "dround (2 ^ 53 + 1) = Fin (2 ^ 53)"
  "dround (2 ^ 53 + 3) = Fin (2 ^ 53 + 4)"
  "dround (1 / 10) = Fin (3602879701896397 / 36028797018963968)"
  by code_simp+

lemma double_fin_simps:
  "Fin a < Fin b \<longleftrightarrow> a < b" "Fin a \<le> Fin b \<longleftrightarrow> a \<le> b"
  "(0 :: double) = Fin 0" "(1 :: double) = Fin 1"
  by (simp_all add: less_double_def less_eq_double_def zero_double_def one_double_def)

lemma ex_mid_clock_value:
  "(0 :: double) + 1 * (Fin (25 / 2) - Fin 10) = Fin (5 / 2)"
  "(0 :: double) + 1 * (Fin (27 / 2) - Fin 10) = Fin (7 / 2)"
  "(0 :: double) + 1 * (Fin (23 / 2) - Fin 10) = Fin (3 / 2)"
  "Fin 0 + Fin 1 * (Fin (27 / 2) - Fin 10) = Fin (7 / 2)"
  by code_simp+

lemma double_le_less_trans: "(a :: double) \<le> b \<Longrightarrow> b < c \<Longrightarrow> a < c"
  by (cases a; cases b; cases c) (simp_all add: less_double_def less_eq_double_def)

lemma double_le_not_less: "(a :: double) \<le> b \<Longrightarrow> \<not> b < a"
  by (cases a; cases b) (simp_all add: less_double_def less_eq_double_def)

section \<open>The tick with callbacks that leave the player alone\<close>

lemma call_evfn_passive:
  "ev_passive H \<Longrightarrow> plr (call_evfn H f evt d w) = plr w"
  "calls (call_evfn H f evt d w) = calls w @ [EvCall f d evt]"
  by (simp_all add: call_evfn_def ev_passive_def Let_def)

lemma call_fifn_passive:
  "fini_passive H \<Longrightarrow> plr (call_fifn H g d w) = plr w"
  "calls (call_fifn H g d w) = calls w @ [FinCall g d]"
  by (simp_all add: call_fifn_def fini_passive_def Let_def)

lemma ctx_next_event_more:
  assumes "seq_pos (seq (ctx (plr w))) < length (seq_events (seq (ctx (plr w))))"
  shows "ctx_next_event w =
    (True, w\<lparr>plr := (plr w)\<lparr>ctx := (ctx (plr w))
        \<lparr>seq := (seq (ctx (plr w)))\<lparr>seq_pos := Suc (seq_pos (seq (ctx (plr w))))\<rparr>,
         sqevt := seq_events (seq (ctx (plr w))) ! seq_pos (seq (ctx (plr w)))\<rparr>\<rparr>\<rparr>)"
  using assms
  by (simp add: ctx_next_event_def fmidi_seq_next_event_def fmidi_seq_peek_event_def Let_def)

lemma ctx_next_event_done:
  assumes "\<not> seq_pos (seq (ctx (plr w))) < length (seq_events (seq (ctx (plr w))))"
  shows "ctx_next_event w = (False, w)"
  using assms
  by (simp add: ctx_next_event_def fmidi_seq_next_event_def fmidi_seq_peek_event_def Let_def)

lemma ev_passive_on_True: "ev_passive H \<Longrightarrow> ev_passive_on (\<lambda>u. True) UNIV H"
  by (simp add: ev_passive_def ev_passive_on_def)

lemma call_evfn_on:
  assumes "ev_passive_on I S H" and "I (user w)" and "evt \<in> S"
  shows "plr (call_evfn H f evt d w) = plr w" and "I (user (call_evfn H f evt d w))"
  using assms by (simp_all add: call_evfn_def ev_passive_on_def Let_def)

lemma ctx_next_event_user: "user (snd (ctx_next_event w)) = user w"
  by (simp add: ctx_next_event_def Let_def split: option.splits)

lemma tick_body_on:
  assumes "ev_passive_on I S H" and "I (user w)" and "event (sqevt (ctx (plr w))) \<in> S"
  shows "plr (snd (tick_body H cb cd w)) = plr (snd (ctx_next_event w))"
    and "fst (tick_body H cb cd w) = fst (ctx_next_event w)"
    and "calls (snd (tick_body H cb cd w)) = calls w @ delivered cb cd [sqevt (ctx (plr w))]"
    and "I (user (snd (tick_body H cb cd w)))"
  using assms call_evfn_on [OF assms]
  by (auto simp: tick_body_def delivered_def call_evfn_passive(2) ctx_next_event_def Let_def
      split: option.splits)

lemma tick_body_passive:
  assumes "ev_passive H"
  shows "plr (snd (tick_body H cb cd w)) = plr (snd (ctx_next_event w))"
    and "fst (tick_body H cb cd w) = fst (ctx_next_event w)"
    and "calls (snd (tick_body H cb cd w)) = calls w @ delivered cb cd [sqevt (ctx (plr w))]"
  using tick_body_on(1-3) [OF ev_passive_on_True [OF assms], where w = w and cb = cb and cd = cd]
  by simp_all

lemma pend_True: "pend True c = sqevt c # drop (seq_pos (seq c)) (seq_events (seq c))"
  by (simp add: pend_def)

lemma tick_loop_on:
  assumes "ev_passive_on I UNIV H" and "I (user w)"
  shows "\<exists>w' n e'.
    tick_loop H cb cd tp True True w =
      Some (dropWhile (\<lambda>x. time x < tp) (pend True (ctx (plr w))) \<noteq> [],
            dropWhile (\<lambda>x. time x < tp) (pend True (ctx (plr w))) \<noteq> [], w') \<and>
    calls w' = calls w @ delivered cb cd (takeWhile (\<lambda>x. time x < tp) (pend True (ctx (plr w)))) \<and>
    plr w' = (plr w)\<lparr>ctx := (ctx (plr w))\<lparr>seq := (seq (ctx (plr w)))\<lparr>seq_pos := n\<rparr>, sqevt := e'\<rparr>\<rparr> \<and>
    pend (dropWhile (\<lambda>x. time x < tp) (pend True (ctx (plr w))) \<noteq> []) (ctx (plr w')) =
      dropWhile (\<lambda>x. time x < tp) (pend True (ctx (plr w))) \<and>
    I (user w')"
  using assms(2)
proof (induction "length (seq_events (seq (ctx (plr w)))) - seq_pos (seq (ctx (plr w)))"
    arbitrary: w rule: less_induct)
  case less
  define c where "c = ctx (plr w)"
  define s where "s = seq c"
  define e where "e = sqevt c"
  define P where "P = (\<lambda>x::fmidi_seq_event. time x < tp)"
  have all: "pend True (ctx (plr w)) = e # drop (seq_pos s) (seq_events s)"
    by (simp add: pend_True c_def s_def e_def)
  show ?case
  proof (cases "P e")
    case False
    then have "tick_loop H cb cd tp True True w = Some (True, True, w)"
      by (subst tick_loop.simps) (simp add: P_def e_def c_def)
    moreover have "plr w = (plr w)\<lparr>ctx := (ctx (plr w))\<lparr>seq := (seq (ctx (plr w)))\<lparr>seq_pos := seq_pos s\<rparr>, sqevt := e\<rparr>\<rparr>"
      by (simp add: c_def s_def e_def)
    ultimately show ?thesis
      using False less.prems unfolding all P_def [symmetric]
      by (intro exI [of _ w] exI [of _ "seq_pos s"] exI [of _ e])
         (simp add: delivered_def pend_True c_def s_def e_def split: option.splits)
  next
    case True
    define r where "r = tick_body H cb cd w"
    have step: "tick_loop H cb cd tp True True w = tick_loop H cb cd tp (fst r) (fst r) (snd r)"
      using True by (subst tick_loop.simps) (simp add: P_def e_def c_def r_def Let_def)
    have r_plr: "plr (snd r) = plr (snd (ctx_next_event w))"
      and r_fst: "fst r = fst (ctx_next_event w)"
      and r_calls: "calls (snd r) = calls w @ delivered cb cd [e]"
      and r_user: "I (user (snd r))"
      using tick_body_on [OF assms(1) less.prems UNIV_I, where cb = cb and cd = cd]
      by (simp_all add: r_def e_def c_def)
    show ?thesis
    proof (cases "seq_pos s < length (seq_events s)")
      case more: True
      have nx: "ctx_next_event w =
        (True, w\<lparr>plr := (plr w)\<lparr>ctx := c\<lparr>seq := s\<lparr>seq_pos := Suc (seq_pos s)\<rparr>,
                 sqevt := seq_events s ! seq_pos s\<rparr>\<rparr>\<rparr>)"
        using ctx_next_event_more [of w] more by (simp add: c_def s_def)
      have p2: "plr (snd r) = (plr w)\<lparr>ctx := c\<lparr>seq := s\<lparr>seq_pos := Suc (seq_pos s)\<rparr>,
                 sqevt := seq_events s ! seq_pos s\<rparr>\<rparr>"
        using r_plr nx by simp
      have all2: "pend True (ctx (plr (snd r))) = drop (seq_pos s) (seq_events s)"
        using more by (simp add: p2 pend_True Cons_nth_drop_Suc)
      have "length (seq_events (seq (ctx (plr (snd r))))) - seq_pos (seq (ctx (plr (snd r))))
           < length (seq_events (seq (ctx (plr w)))) - seq_pos (seq (ctx (plr w)))"
        using more by (simp add: p2 c_def [symmetric] s_def [symmetric])
      from less.hyps [OF this r_user] obtain w' n e' where
        IH: "tick_loop H cb cd tp True True (snd r) =
               Some (dropWhile P (drop (seq_pos s) (seq_events s)) \<noteq> [],
                     dropWhile P (drop (seq_pos s) (seq_events s)) \<noteq> [], w')"
            "calls w' = calls (snd r) @ delivered cb cd (takeWhile P (drop (seq_pos s) (seq_events s)))"
            "plr w' = (plr (snd r))\<lparr>ctx := (ctx (plr (snd r)))\<lparr>seq := (seq (ctx (plr (snd r))))\<lparr>seq_pos := n\<rparr>, sqevt := e'\<rparr>\<rparr>"
            "pend (dropWhile P (drop (seq_pos s) (seq_events s)) \<noteq> []) (ctx (plr w')) =
               dropWhile P (drop (seq_pos s) (seq_events s))"
            "I (user w')"
        unfolding all2 P_def by blast
      have fr: "fst r = True" using r_fst nx by simp
      have "plr w' = (plr w)\<lparr>ctx := (ctx (plr w))\<lparr>seq := (seq (ctx (plr w)))\<lparr>seq_pos := n\<rparr>, sqevt := e'\<rparr>\<rparr>"
        using IH(3) by (simp add: p2 c_def s_def)
      moreover have "calls w' = calls w @ delivered cb cd (takeWhile P (e # drop (seq_pos s) (seq_events s)))"
        using IH(2) True by (simp add: r_calls delivered_def split: option.splits)
      ultimately show ?thesis
        using True IH(1,4,5) step fr unfolding all P_def [symmetric]
        by (intro exI [of _ w'] exI [of _ n] exI [of _ e']) simp
    next
      case nomore: False
      have nx: "ctx_next_event w = (False, w)"
        using ctx_next_event_done [of w] nomore by (simp add: c_def s_def)
      have fr: "fst r = False" using r_fst nx by simp
      have p2: "plr (snd r) = plr w" using r_plr nx by simp
      have "tick_loop H cb cd tp True True w = Some (False, False, snd r)"
        using step fr by (simp add: tick_loop.simps)
      moreover have "drop (seq_pos s) (seq_events s) = []" using nomore by simp
      moreover have "plr w = (plr w)\<lparr>ctx := (ctx (plr w))\<lparr>seq := (seq (ctx (plr w)))\<lparr>seq_pos := seq_pos s\<rparr>, sqevt := e\<rparr>\<rparr>"
        by (simp add: c_def s_def e_def)
      ultimately show ?thesis
        using True r_calls p2 r_user unfolding all P_def [symmetric]
        by (intro exI [of _ "snd r"] exI [of _ "seq_pos s"] exI [of _ e])
           (simp add: pend_def c_def [symmetric] s_def [symmetric])
    qed
  qed
qed

lemma tick_loop_passive:
  assumes "ev_passive H"
  shows "\<exists>w' n e'.
    tick_loop H cb cd tp True True w =
      Some (dropWhile (\<lambda>x. time x < tp) (pend True (ctx (plr w))) \<noteq> [],
            dropWhile (\<lambda>x. time x < tp) (pend True (ctx (plr w))) \<noteq> [], w') \<and>
    calls w' = calls w @ delivered cb cd (takeWhile (\<lambda>x. time x < tp) (pend True (ctx (plr w)))) \<and>
    plr w' = (plr w)\<lparr>ctx := (ctx (plr w))\<lparr>seq := (seq (ctx (plr w)))\<lparr>seq_pos := n\<rparr>, sqevt := e'\<rparr>\<rparr> \<and>
    pend (dropWhile (\<lambda>x. time x < tp) (pend True (ctx (plr w))) \<noteq> []) (ctx (plr w')) =
      dropWhile (\<lambda>x. time x < tp) (pend True (ctx (plr w)))"
  using tick_loop_on [OF ev_passive_on_True [OF assms], where w = w and cb = cb and cd = cd and tp = tp]
  by blast

lemma tick_front_passive:
  fixes w :: "'u world" and tp :: tstamp and H :: "'u host"
  assumes "ev_passive H"
  defines "r \<equiv> (if have_event (ctx (plr w)) then (True, w) else ctx_next_event w)"
  defines "rest \<equiv> dropWhile (\<lambda>x. time x < tp) (pending (plr w))"
  shows "\<exists>w2 n e'.
    (if fst r then tick_loop H cb cd tp (fst r) True (snd r)
     else Some (fst r, have_event (ctx (plr w)), snd r)) = Some (rest \<noteq> [], rest \<noteq> [], w2) \<and>
    calls w2 = calls w @ delivered cb cd (takeWhile (\<lambda>x. time x < tp) (pending (plr w))) \<and>
    plr w2 = (plr w)\<lparr>ctx := (ctx (plr w))\<lparr>seq := (seq (ctx (plr w)))\<lparr>seq_pos := n\<rparr>, sqevt := e'\<rparr>\<rparr> \<and>
    pend (rest \<noteq> []) (ctx (plr w2)) = rest"
proof (cases "have_event (ctx (plr w))")
  case True
  then have "r = (True, w)" and "pending (plr w) = pend True (ctx (plr w))"
    by (simp_all add: r_def pending_def)
  then show ?thesis
    using tick_loop_passive [OF assms(1), of cb cd tp w] by (simp add: rest_def)
next
  case he: False
  show ?thesis
  proof (cases "seq_pos (seq (ctx (plr w))) < length (seq_events (seq (ctx (plr w))))")
    case True
    define w1 where "w1 = snd (ctx_next_event w)"
    have r: "r = (True, w1)"
      using he ctx_next_event_more [OF True] by (simp add: r_def w1_def)
    have p1: "plr w1 = (plr w)\<lparr>ctx := (ctx (plr w))
        \<lparr>seq := (seq (ctx (plr w)))\<lparr>seq_pos := Suc (seq_pos (seq (ctx (plr w))))\<rparr>,
         sqevt := seq_events (seq (ctx (plr w))) ! seq_pos (seq (ctx (plr w)))\<rparr>\<rparr>"
      and c1: "calls w1 = calls w"
      using ctx_next_event_more [OF True] by (simp_all add: w1_def)
    have pd: "pend True (ctx (plr w1)) = pending (plr w)"
      using he True by (simp add: p1 pend_def pending_def Cons_nth_drop_Suc)
    from tick_loop_passive [OF assms(1), of cb cd tp w1] obtain w2 n e' where
      "tick_loop H cb cd tp True True w1 = Some (rest \<noteq> [], rest \<noteq> [], w2)"
      "calls w2 = calls w1 @ delivered cb cd (takeWhile (\<lambda>x. time x < tp) (pending (plr w)))"
      "plr w2 = (plr w1)\<lparr>ctx := (ctx (plr w1))\<lparr>seq := (seq (ctx (plr w1)))\<lparr>seq_pos := n\<rparr>, sqevt := e'\<rparr>\<rparr>"
      "pend (rest \<noteq> []) (ctx (plr w2)) = rest"
      unfolding pd rest_def by blast
    then show ?thesis
      unfolding r by (intro exI [of _ w2] exI [of _ n] exI [of _ e']) (simp add: c1 p1)
  next
    case False
    have r: "r = (False, w)"
      using he ctx_next_event_done [OF False] by (simp add: r_def)
    have pd: "pending (plr w) = []"
      using he False by (simp add: pend_def pending_def)
    have "plr w = (plr w)\<lparr>ctx := (ctx (plr w))\<lparr>seq := (seq (ctx (plr w)))
           \<lparr>seq_pos := seq_pos (seq (ctx (plr w)))\<rparr>, sqevt := sqevt (ctx (plr w))\<rparr>\<rparr>"
      by simp
    then show ?thesis
      unfolding r rest_def pd using he False
      by (intro exI [of _ w] exI [of _ "seq_pos (seq (ctx (plr w)))"] exI [of _ "sqevt (ctx (plr w))"])
         (simp add: delivered_def pend_def split: option.splits)
  qed
qed

lemma tick_unfold:
  "fmidi_player_tick H now w =
     (case (if fst (if have_event (ctx (plr w)) then (True, w) else ctx_next_event w)
            then tick_loop H (cbfn (ctx (plr w))) (cbdata (ctx (plr w)))
                   (if have_tick (ctx (plr w))
                    then timepos (ctx (plr w)) + speed (ctx (plr w)) * (now - prev_tick (ctx (plr w)))
                    else timepos (ctx (plr w)))
                   (fst (if have_event (ctx (plr w)) then (True, w) else ctx_next_event w)) True
                   (snd (if have_event (ctx (plr w)) then (True, w) else ctx_next_event w))
            else Some (fst (if have_event (ctx (plr w)) then (True, w) else ctx_next_event w),
                       have_event (ctx (plr w)),
                       snd (if have_event (ctx (plr w)) then (True, w) else ctx_next_event w))) of
        None \<Rightarrow> None
      | Some (more2, have_event2, w2) \<Rightarrow>
          Some (tick_end H more2
            (w2\<lparr>plr := (plr w2)\<lparr>ctx := (ctx (plr w2))
               \<lparr>have_event := have_event2, have_tick := True, prev_tick := now,
                timepos := (if have_tick (ctx (plr w))
                    then timepos (ctx (plr w)) + speed (ctx (plr w)) * (now - prev_tick (ctx (plr w)))
                    else timepos (ctx (plr w)))\<rparr>\<rparr>\<rparr>)))"
  unfolding fmidi_player_tick_def tick_end_def Let_def
  by (simp split: option.splits prod.splits)

lemma tick_ev_passive:
  assumes "ev_passive H"
  shows "\<exists>w0. fmidi_player_tick H now w =
      Some (if v_pending (fst (spec_tick now (view (plr w)))) = [] then
              (case finifn (ctx (plr w)) of None \<Rightarrow> w0
               | Some g \<Rightarrow> call_fifn H g (finidata (ctx (plr w))) w0)
            else w0) \<and>
    view (plr w0) = fst (spec_tick now (view (plr w))) \<and>
    calls w0 = calls w @ delivered (cbfn (ctx (plr w))) (cbdata (ctx (plr w)))
       (takeWhile (\<lambda>x. time x < spec_clock now (view (plr w))) (pending (plr w))) \<and>
    seq_events (seq (ctx (plr w0))) = seq_events (seq (ctx (plr w))) \<and>
    timer_repeat (plr w0) = timer_repeat (plr w)"
proof -
  define c where "c = ctx (plr w)"
  define tp where "tp = (if have_tick c then timepos c + speed c * (now - prev_tick c) else timepos c)"
  define rest where "rest = dropWhile (\<lambda>x. time x < tp) (pending (plr w))"
  define r where "r = (if have_event c then (True, w) else ctx_next_event w)"
  have clk: "spec_clock now (view (plr w)) = tp"
    by (simp add: spec_clock_def view_def tp_def c_def)
  from tick_front_passive [OF assms(1), of w "cbfn c" "cbdata c" tp] obtain w2 n e' where
    fr: "(if fst r then tick_loop H (cbfn c) (cbdata c) tp (fst r) True (snd r)
          else Some (fst r, have_event c, snd r)) = Some (rest \<noteq> [], rest \<noteq> [], w2)"
    and c2: "calls w2 = calls w @ delivered (cbfn c) (cbdata c) (takeWhile (\<lambda>x. time x < tp) (pending (plr w)))"
    and p2: "plr w2 = (plr w)\<lparr>ctx := c\<lparr>seq := (seq c)\<lparr>seq_pos := n\<rparr>, sqevt := e'\<rparr>\<rparr>"
    and pd: "pend (rest \<noteq> []) (ctx (plr w2)) = rest"
    unfolding r_def rest_def c_def by blast
  define w3 where "w3 = w2\<lparr>plr := (plr w2)\<lparr>ctx := (ctx (plr w2))
       \<lparr>have_event := rest \<noteq> [], have_tick := True, prev_tick := now, timepos := tp\<rparr>\<rparr>\<rparr>"
  define w4 where "w4 = w3\<lparr>plr := (plr w3)\<lparr>timer_active := False, running := False\<rparr>\<rparr>"
  have tick: "fmidi_player_tick H now w = Some (tick_end H (rest \<noteq> []) w3)"
    unfolding tick_unfold c_def [symmetric] tp_def [symmetric] r_def [symmetric] fr
    by (simp add: w3_def)
  have pd3: "pending (plr w3) = rest"
    using pd by (cases "rest = []") (simp_all add: w3_def pending_def pend_def)
  have v3: "view (plr w3) = (view (plr w))\<lparr>v_pending := rest, v_timepos := tp, v_base := Some now\<rparr>"
    using pd3 by (simp add: view_def) (simp add: w3_def p2 c_def)
  have vp: "v_pending (view (plr w)) = pending (plr w)"
    by (simp add: view_def)
  have st: "fst (spec_tick now (view (plr w))) =
     (view (plr w))\<lparr>v_pending := rest, v_timepos := tp, v_base := Some now,
        v_timer := timer_active (plr w) \<and> rest \<noteq> [], v_running := running (plr w) \<and> rest \<noteq> []\<rparr>"
    unfolding spec_tick_def Let_def clk vp rest_def [symmetric] by (simp add: view_def c_def)
  have c3: "calls w3 = calls w @ delivered (cbfn c) (cbdata c) (takeWhile (\<lambda>x. time x < tp) (pending (plr w)))"
    by (simp add: w3_def c2)
  show ?thesis
  proof (cases "rest = []")
    case False
    then have "fmidi_player_tick H now w = Some w3" using tick by (simp add: tick_end_def)
    moreover have "view (plr w3) = fst (spec_tick now (view (plr w)))"
      using False unfolding st v3 by (simp add: view_def)
    ultimately show ?thesis
      using False c3 unfolding clk
      by (intro exI [of _ w3]) (simp add: st, simp add: w3_def p2 c_def)
  next
    case True
    have "view (plr w4) = (view (plr w3))\<lparr>v_timer := False, v_running := False\<rparr>"
      by (simp add: view_def w4_def pending_def pend_def)
    then have v4: "view (plr w4) = fst (spec_tick now (view (plr w)))"
      unfolding st v3 using True by simp
    have f4: "finifn (ctx (plr w4)) = finifn c" "finidata (ctx (plr w4)) = finidata c"
      by (simp_all add: w4_def w3_def p2)
    have c4: "calls w4 = calls w @ delivered (cbfn c) (cbdata c) (takeWhile (\<lambda>x. time x < tp) (pending (plr w)))"
      by (simp add: w4_def c3)
    have s4: "seq_events (seq (ctx (plr w4))) = seq_events (seq (ctx (plr w)))"
       "timer_repeat (plr w4) = timer_repeat (plr w)"
      by (simp_all add: w4_def w3_def p2 c_def)
    have "fmidi_player_tick H now w =
       Some (case finifn c of None \<Rightarrow> w4 | Some g \<Rightarrow> call_fifn H g (finidata c) w4)"
      using tick True f4 by (simp add: tick_end_def Let_def w4_def [symmetric] split: option.splits)
    then show ?thesis
      using True v4 c4 s4 unfolding clk c_def
      by (intro exI [of _ w4]) (simp add: st)
  qed
qed

lemma tick_passive:
  assumes "ev_passive H" and "fini_passive H"
  shows "\<exists>w'. fmidi_player_tick H now w = Some w' \<and>
    view (plr w') = fst (spec_tick now (view (plr w))) \<and>
    calls w' = calls w @ snd (spec_tick now (view (plr w))) \<and>
    seq_events (seq (ctx (plr w'))) = seq_events (seq (ctx (plr w))) \<and>
    timer_repeat (plr w') = timer_repeat (plr w)"
proof -
  from tick_ev_passive [OF assms(1), of now w] obtain w0 where
    t: "fmidi_player_tick H now w =
      Some (if v_pending (fst (spec_tick now (view (plr w)))) = [] then
              (case finifn (ctx (plr w)) of None \<Rightarrow> w0
               | Some g \<Rightarrow> call_fifn H g (finidata (ctx (plr w))) w0)
            else w0)"
    and v: "view (plr w0) = fst (spec_tick now (view (plr w)))"
    and c: "calls w0 = calls w @ delivered (cbfn (ctx (plr w))) (cbdata (ctx (plr w)))
       (takeWhile (\<lambda>x. time x < spec_clock now (view (plr w))) (pending (plr w)))"
    and s: "seq_events (seq (ctx (plr w0))) = seq_events (seq (ctx (plr w)))"
       "timer_repeat (plr w0) = timer_repeat (plr w)"
    by blast
  have sn: "snd (spec_tick now (view (plr w))) =
     delivered (cbfn (ctx (plr w))) (cbdata (ctx (plr w)))
       (takeWhile (\<lambda>x. time x < spec_clock now (view (plr w))) (pending (plr w))) @
     (if v_pending (fst (spec_tick now (view (plr w)))) = []
      then fin_calls (finifn (ctx (plr w))) (finidata (ctx (plr w))) else [])"
    by (simp add: spec_tick_def Let_def view_def)
  show ?thesis
    unfolding t sn using v c s call_fifn_passive(1) [OF assms(2)]
    by (auto simp: fin_calls_def call_fifn_passive(2) split: option.splits)
qed

section \<open>The playback clock\<close>






section \<open>Runs of ticks\<close>

lemma takeWhile_sorted_time:
  "sorted_wrt (\<le>) (map time xs) \<Longrightarrow>
     takeWhile (\<lambda>x. time x < t) xs = filter (\<lambda>x. time x < t) xs \<and>
     dropWhile (\<lambda>x. time x < t) xs = filter (\<lambda>x. \<not> time x < t) xs"
proof (induction xs)
  case Nil
  then show ?case by simp
next
  case (Cons x xs)
  show ?case
  proof (cases "time x < t")
    case True
    with Cons show ?thesis by simp
  next
    case False
    from Cons.prems have "\<forall>y\<in>set xs. time x \<le> time y" by simp
    with False have "\<forall>y\<in>set xs. \<not> time y < t"
      using double_le_less_trans by blast
    then have "filter (\<lambda>x. time x < t) xs = []" "filter (\<lambda>x. \<not> time x < t) xs = xs"
      by (simp_all add: filter_empty_conv filter_id_conv)
    with False show ?thesis by simp
  qed
qed

lemma delivered_append:
  "delivered cb cd (xs @ ys) = delivered cb cd xs @ delivered cb cd ys"
  by (simp add: delivered_def split: option.splits)

lemma spec_run_stopped: "\<not> v_timer v \<Longrightarrow> spec_run nows v = (v, [])"
  by (induction nows) simp_all

lemma spec_tick_fields:
  "v_cbfn (fst (spec_tick now v)) = v_cbfn v"
  "v_cbdata (fst (spec_tick now v)) = v_cbdata v"
  "v_finifn (fst (spec_tick now v)) = v_finifn v"
  "v_finidata (fst (spec_tick now v)) = v_finidata v"
  "v_speed (fst (spec_tick now v)) = v_speed v"
  "v_timepos (fst (spec_tick now v)) = spec_clock now v"
  "v_base (fst (spec_tick now v)) = Some now"
  "v_pending (fst (spec_tick now v)) = dropWhile (\<lambda>x. time x < spec_clock now v) (v_pending v)"
  "v_timer (fst (spec_tick now v)) = (v_timer v \<and> v_pending (fst (spec_tick now v)) \<noteq> [])"
  "v_running (fst (spec_tick now v)) = (v_running v \<and> v_pending (fst (spec_tick now v)) \<noteq> [])"
  "snd (spec_tick now v) =
     delivered (v_cbfn v) (v_cbdata v) (takeWhile (\<lambda>x. time x < spec_clock now v) (v_pending v)) @
     (if v_pending (fst (spec_tick now v)) = [] then fin_calls (v_finifn v) (v_finidata v) else [])"
  by (simp_all add: spec_tick_def Let_def)

lemma spec_run_shape:
  assumes "v_timer v"
  shows "\<exists>evs. v_pending v = evs @ v_pending (fst (spec_run nows v)) \<and>
    snd (spec_run nows v) = delivered (v_cbfn v) (v_cbdata v) evs @
      (if v_timer (fst (spec_run nows v)) then [] else fin_calls (v_finifn v) (v_finidata v)) \<and>
    (\<not> v_timer (fst (spec_run nows v)) \<longrightarrow>
       \<not> v_running (fst (spec_run nows v)) \<and> v_pending (fst (spec_run nows v)) = [])"
  using assms
proof (induction nows arbitrary: v)
  case Nil
  then show ?case by (intro exI [of _ "[]"]) (simp add: delivered_def split: option.splits)
next
  case (Cons now nows)
  define v1 where "v1 = fst (spec_tick now v)"
  define due where "due = takeWhile (\<lambda>x. time x < spec_clock now v) (v_pending v)"
  have split: "v_pending v = due @ v_pending v1"
    by (simp add: v1_def due_def spec_tick_fields)
  have sn: "snd (spec_tick now v) = delivered (v_cbfn v) (v_cbdata v) due @
      (if v_pending v1 = [] then fin_calls (v_finifn v) (v_finidata v) else [])"
    by (simp add: v1_def due_def spec_tick_fields)
  have run: "spec_run (now # nows) v =
      (fst (spec_run nows v1), snd (spec_tick now v) @ snd (spec_run nows v1))"
    using Cons.prems by (simp add: Let_def v1_def)
  show ?case
  proof (cases "v_pending v1 = []")
    case True
    then have "\<not> v_timer v1" "\<not> v_running v1" by (simp_all add: v1_def spec_tick_fields)
    then have "spec_run nows v1 = (v1, [])" by (simp add: spec_run_stopped)
    with True \<open>\<not> v_timer v1\<close> \<open>\<not> v_running v1\<close> split show ?thesis
      unfolding run sn
      by (intro exI [of _ due]) simp
  next
    case False
    then have tm: "v_timer v1" using Cons.prems by (simp add: v1_def spec_tick_fields)
    from Cons.IH [OF tm] obtain evs where
      IH: "v_pending v1 = evs @ v_pending (fst (spec_run nows v1))"
        "snd (spec_run nows v1) = delivered (v_cbfn v1) (v_cbdata v1) evs @
           (if v_timer (fst (spec_run nows v1)) then [] else fin_calls (v_finifn v1) (v_finidata v1))"
        "\<not> v_timer (fst (spec_run nows v1)) \<longrightarrow>
           \<not> v_running (fst (spec_run nows v1)) \<and> v_pending (fst (spec_run nows v1)) = []"
      by blast
    have f: "v_cbfn v1 = v_cbfn v" "v_cbdata v1 = v_cbdata v" "v_finifn v1 = v_finifn v"
       "v_finidata v1 = v_finidata v"
      by (simp_all add: v1_def spec_tick_fields)
    show ?thesis
      unfolding run sn using IH [unfolded f] False split
      by (intro exI [of _ "due @ evs"]) (auto simp: delivered_append)
  qed
qed

lemma ev_run_passive:
  assumes "ev_passive H" and "fini_passive H"
  shows "\<exists>w'. ev_run H nows w = Some w' \<and>
    view (plr w') = fst (spec_run nows (view (plr w))) \<and>
    calls w' = calls w @ snd (spec_run nows (view (plr w))) \<and>
    seq_events (seq (ctx (plr w'))) = seq_events (seq (ctx (plr w))) \<and>
    timer_repeat (plr w') = timer_repeat (plr w)"
proof (induction nows arbitrary: w)
  case Nil
  show ?case by simp
next
  case (Cons now nows)
  show ?case
  proof (cases "timer_active (plr w)")
    case False
    then have "ev_run H (now # nows) w = ev_run H nows w"
      and "spec_run (now # nows) (view (plr w)) = spec_run nows (view (plr w))"
      by (simp_all add: view_def)
    with Cons.IH [of w] show ?thesis by simp
  next
    case True
    from tick_passive [OF assms, of now w] obtain w1 where
      t: "fmidi_player_tick H now w = Some w1"
      and v: "view (plr w1) = fst (spec_tick now (view (plr w)))"
      and c: "calls w1 = calls w @ snd (spec_tick now (view (plr w)))"
      and s: "seq_events (seq (ctx (plr w1))) = seq_events (seq (ctx (plr w)))"
         "timer_repeat (plr w1) = timer_repeat (plr w)"
      by blast
    have "ev_run H (now # nows) w = ev_run H nows w1"
      using True t by simp
    moreover have "spec_run (now # nows) (view (plr w)) =
       (fst (spec_run nows (view (plr w1))),
        snd (spec_tick now (view (plr w))) @ snd (spec_run nows (view (plr w1))))"
      using True by (simp add: Let_def v) (simp add: view_def)
    ultimately show ?thesis
      using Cons.IH [of w1] c s by auto
  qed
qed


lemmas ex_defs = ex_mid_def ex_world_def ex_player_def ex_events_def fmidi_player_start_def
  fmidi_player_finish_callback_def fmidi_player_event_callback_def fmidi_player_new_def

lemma H_count_passive: "ev_passive H_count" "fini_passive H_count"
  by (simp_all add: ev_passive_def fini_passive_def H_count_def)

section \<open>Draining the due events\<close>

text \<open>
  Claim C1. With callbacks that leave the player alone and pending events in time order,
  a tick returns and, after advancing \<open>timepos\<close> (in double arithmetic, as the source
  does), has delivered to the registered
  callback exactly the pending events whose time is strictly less than the new
  \<open>timepos\<close>, in sequence order and each once (an event at \<open>timepos\<close> itself stays
  pending); they are all drained in this one tick. Without a callback nothing is called,
  and the same events are consumed and the time advances all the same.
\<close>

theorem tick_delivers_due:
  assumes "ev_passive H" and "fini_passive H"
    and "sorted_wrt (\<le>) (map time (pending (plr w)))"
  shows "\<exists>w'. fmidi_player_tick H now w = Some w' \<and>
    timepos (ctx (plr w')) =
      (if have_tick (ctx (plr w))
       then timepos (ctx (plr w)) + speed (ctx (plr w)) * (now - prev_tick (ctx (plr w)))
       else timepos (ctx (plr w))) \<and>
    calls w' = calls w @
      delivered (cbfn (ctx (plr w))) (cbdata (ctx (plr w)))
        (filter (\<lambda>x. time x < timepos (ctx (plr w'))) (pending (plr w))) @
      (if pending (plr w') = [] then fin_calls (finifn (ctx (plr w))) (finidata (ctx (plr w))) else []) \<and>
    pending (plr w') = filter (\<lambda>x. \<not> time x < timepos (ctx (plr w'))) (pending (plr w))"
proof -
  from tick_passive [OF assms(1,2), of now w] obtain w' where
    t: "fmidi_player_tick H now w = Some w'"
    and v: "view (plr w') = fst (spec_tick now (view (plr w)))"
    and c: "calls w' = calls w @ snd (spec_tick now (view (plr w)))"
    by blast
  define tp where "tp = spec_clock now (view (plr w))"
  have vw: "v_pending (view (plr w)) = pending (plr w)" "v_cbfn (view (plr w)) = cbfn (ctx (plr w))"
    "v_cbdata (view (plr w)) = cbdata (ctx (plr w))" "v_finifn (view (plr w)) = finifn (ctx (plr w))"
    "v_finidata (view (plr w)) = finidata (ctx (plr w))"
    by (simp_all add: view_def)
  have "v_timepos (view (plr w')) = tp"
    unfolding v by (simp add: spec_tick_fields tp_def)
  then have tp': "timepos (ctx (plr w')) = tp" by (simp add: view_def)
  have "v_pending (view (plr w')) = dropWhile (\<lambda>x. time x < tp) (pending (plr w))"
    unfolding v by (simp add: spec_tick_fields tp_def vw)
  then have pd: "pending (plr w') = dropWhile (\<lambda>x. time x < tp) (pending (plr w))"
    by (simp add: view_def)
  have cl: "calls w' = calls w @
      delivered (cbfn (ctx (plr w))) (cbdata (ctx (plr w)))
        (takeWhile (\<lambda>x. time x < tp) (pending (plr w))) @
      (if pending (plr w') = [] then fin_calls (finifn (ctx (plr w))) (finidata (ctx (plr w))) else [])"
    unfolding c pd by (simp add: spec_tick_fields vw tp_def)
  note tw = takeWhile_sorted_time [OF assms(3), of tp]
  have 1: "timepos (ctx (plr w')) =
      (if have_tick (ctx (plr w))
       then timepos (ctx (plr w)) + speed (ctx (plr w)) * (now - prev_tick (ctx (plr w)))
       else timepos (ctx (plr w)))"
    unfolding tp' by (simp add: tp_def spec_clock_def view_def)
  have 2: "calls w' = calls w @
      delivered (cbfn (ctx (plr w))) (cbdata (ctx (plr w)))
        (filter (\<lambda>x. time x < timepos (ctx (plr w'))) (pending (plr w))) @
      (if pending (plr w') = [] then fin_calls (finifn (ctx (plr w))) (finidata (ctx (plr w))) else [])"
    unfolding tp' by (rule cl [unfolded conjunct1 [OF tw]])
  have 3: "pending (plr w') = filter (\<lambda>x. \<not> time x < timepos (ctx (plr w'))) (pending (plr w))"
    unfolding tp' by (rule pd [unfolded conjunct2 [OF tw]])
  from t 1 2 3 show ?thesis by blast
qed

theorem tick_delivers_due_witness:
  "ev_passive H_count \<and> fini_passive H_count \<and>
   sorted_wrt (\<le>) (map time (pending (plr ex_mid))) \<and>
   (\<exists>w'. fmidi_player_tick H_count (Fin (25 / 2)) ex_mid = Some w' \<and>
      timepos (ctx (plr w')) = Fin (5 / 2) \<and>
      calls w' = [EvCall 1 7 (event (ex_events ! 0)), EvCall 1 7 (event (ex_events ! 1))] \<and>
      pending (plr w') = [ex_events ! 2, ex_events ! 3])"
proof -
  have pd: "pending (plr ex_mid) = ex_events"
    by (simp add: pending_def pend_def ex_defs)
  have st: "sorted_wrt (\<le>) (map time (pending (plr ex_mid)))"
    unfolding pd by (simp add: ex_events_def double_fin_simps)
  have f: "have_tick (ctx (plr ex_mid))" "timepos (ctx (plr ex_mid)) = 0"
    "speed (ctx (plr ex_mid)) = 1" "prev_tick (ctx (plr ex_mid)) = Fin 10"
    "cbfn (ctx (plr ex_mid)) = Some 1" "cbdata (ctx (plr ex_mid)) = 7" "calls ex_mid = []"
    by (simp_all add: ex_defs)
  from tick_delivers_due [OF H_count_passive st, of "Fin (25 / 2)"] obtain w' where
    a: "fmidi_player_tick H_count (Fin (25 / 2)) ex_mid = Some w'"
    and b: "timepos (ctx (plr w')) =
      (if have_tick (ctx (plr ex_mid))
       then timepos (ctx (plr ex_mid)) + speed (ctx (plr ex_mid)) * (Fin (25 / 2) - prev_tick (ctx (plr ex_mid)))
       else timepos (ctx (plr ex_mid)))"
    and c: "calls w' = calls ex_mid @
      delivered (cbfn (ctx (plr ex_mid))) (cbdata (ctx (plr ex_mid)))
        (filter (\<lambda>x. time x < timepos (ctx (plr w'))) (pending (plr ex_mid))) @
      (if pending (plr w') = [] then fin_calls (finifn (ctx (plr ex_mid))) (finidata (ctx (plr ex_mid))) else [])"
    and d: "pending (plr w') = filter (\<lambda>x. \<not> time x < timepos (ctx (plr w'))) (pending (plr ex_mid))"
    by blast
  have b': "timepos (ctx (plr w')) = Fin (5 / 2)"
    unfolding b by (simp add: f ex_mid_clock_value)
  have d': "pending (plr w') = [ex_events ! 2, ex_events ! 3]"
    unfolding d b' pd by (simp add: ex_events_def double_fin_simps)
  have c': "calls w' = [EvCall 1 7 (event (ex_events ! 0)), EvCall 1 7 (event (ex_events ! 1))]"
    unfolding c b' pd d' f by (simp add: ex_events_def delivered_def double_fin_simps)
  from a b' c' d' H_count_passive st show ?thesis by blast
qed

section \<open>The end of the sequence\<close>

text \<open>
  Claim C3. With callbacks that leave the player alone and the timer started: a tick after
  which no event is pending has delivered every pending event, stopped the timer, cleared
  the running flag and then called the finish callback (if one is registered); a tick
  that leaves an event pending calls no finish callback. Over any run of timer firings
  the finish callback is called at most once, after the last event, exactly when the run
  ends with the timer stopped; from then on the timer does not fire again.
\<close>

theorem finish_fires_once:
  assumes "ev_passive H" and "fini_passive H" and "timer_active (plr w)"
  shows "(\<exists>w1. fmidi_player_tick H now w = Some w1 \<and>
      (if pending (plr w1) = [] then
         \<not> timer_active (plr w1) \<and> \<not> running (plr w1) \<and>
         calls w1 = calls w @ delivered (cbfn (ctx (plr w))) (cbdata (ctx (plr w))) (pending (plr w)) @
           fin_calls (finifn (ctx (plr w))) (finidata (ctx (plr w)))
       else
         timer_active (plr w1) \<and> running (plr w1) = running (plr w) \<and>
         filter is_fin (calls w1) = filter is_fin (calls w))) \<and>
    (\<exists>w' evs. ev_run H nows w = Some w' \<and>
      pending (plr w) = evs @ pending (plr w') \<and>
      calls w' = calls w @ delivered (cbfn (ctx (plr w))) (cbdata (ctx (plr w))) evs @
        (if timer_active (plr w') then []
         else fin_calls (finifn (ctx (plr w))) (finidata (ctx (plr w)))) \<and>
      (\<not> timer_active (plr w') \<longrightarrow>
         \<not> running (plr w') \<and> pending (plr w') = [] \<and> ev_run H later w' = Some w'))"
proof -
  have vw: "v_pending (view (plr w)) = pending (plr w)" "v_cbfn (view (plr w)) = cbfn (ctx (plr w))"
    "v_cbdata (view (plr w)) = cbdata (ctx (plr w))" "v_finifn (view (plr w)) = finifn (ctx (plr w))"
    "v_finidata (view (plr w)) = finidata (ctx (plr w))" "v_timer (view (plr w)) = timer_active (plr w)"
    "v_running (view (plr w)) = running (plr w)"
    by (simp_all add: view_def)
  have nofin: "filter is_fin (delivered cb cd xs) = []" for cb cd xs
    by (auto simp: delivered_def filter_empty_conv split: option.splits)
  have one: "\<exists>w1. fmidi_player_tick H now w = Some w1 \<and>
      (if pending (plr w1) = [] then
         \<not> timer_active (plr w1) \<and> \<not> running (plr w1) \<and>
         calls w1 = calls w @ delivered (cbfn (ctx (plr w))) (cbdata (ctx (plr w))) (pending (plr w)) @
           fin_calls (finifn (ctx (plr w))) (finidata (ctx (plr w)))
       else
         timer_active (plr w1) \<and> running (plr w1) = running (plr w) \<and>
         filter is_fin (calls w1) = filter is_fin (calls w))"
  proof -
    from tick_passive [OF assms(1,2), of now w] obtain w1 where
      t: "fmidi_player_tick H now w = Some w1"
      and v: "view (plr w1) = fst (spec_tick now (view (plr w)))"
      and c: "calls w1 = calls w @ snd (spec_tick now (view (plr w)))"
      by blast
    define tp where "tp = spec_clock now (view (plr w))"
    define v1 where "v1 = fst (spec_tick now (view (plr w)))"
    have v1: "pending (plr w1) = v_pending v1" "timer_active (plr w1) = v_timer v1"
      "running (plr w1) = v_running v1"
      unfolding v1_def v [symmetric] by (simp_all add: view_def)
    have pd: "v_pending v1 = dropWhile (\<lambda>x. time x < tp) (pending (plr w))"
      and tm: "v_timer v1 = (v_pending v1 \<noteq> [])"
      and rn: "v_running v1 = (running (plr w) \<and> v_pending v1 \<noteq> [])"
      and cl: "snd (spec_tick now (view (plr w))) =
         delivered (cbfn (ctx (plr w))) (cbdata (ctx (plr w)))
           (takeWhile (\<lambda>x. time x < tp) (pending (plr w))) @
         (if v_pending v1 = [] then fin_calls (finifn (ctx (plr w))) (finidata (ctx (plr w))) else [])"
      unfolding v1_def tp_def using assms(3) by (simp_all add: spec_tick_fields vw)
    show ?thesis
    proof (cases "v_pending v1 = []")
      case True
      then have tw: "takeWhile (\<lambda>x. time x < tp) (pending (plr w)) = pending (plr w)"
        unfolding pd by (simp add: takeWhile_eq_all_conv)
      have cl2: "snd (spec_tick now (view (plr w))) =
         delivered (cbfn (ctx (plr w))) (cbdata (ctx (plr w))) (pending (plr w)) @
         fin_calls (finifn (ctx (plr w))) (finidata (ctx (plr w)))"
        unfolding cl tw using True by simp
      from True t show ?thesis
        by (intro exI [of _ w1]) (simp add: v1 tm rn c cl2)
    next
      case False
      with t show ?thesis
        by (intro exI [of _ w1]) (simp add: v1 tm rn c cl nofin)
    qed
  qed
  have run: "\<exists>w' evs. ev_run H nows w = Some w' \<and>
      pending (plr w) = evs @ pending (plr w') \<and>
      calls w' = calls w @ delivered (cbfn (ctx (plr w))) (cbdata (ctx (plr w))) evs @
        (if timer_active (plr w') then []
         else fin_calls (finifn (ctx (plr w))) (finidata (ctx (plr w)))) \<and>
      (\<not> timer_active (plr w') \<longrightarrow>
         \<not> running (plr w') \<and> pending (plr w') = [] \<and> ev_run H later w' = Some w')"
  proof -
    from ev_run_passive [OF assms(1,2), of nows w] obtain w' where
      r: "ev_run H nows w = Some w'"
      and v: "view (plr w') = fst (spec_run nows (view (plr w)))"
      and c: "calls w' = calls w @ snd (spec_run nows (view (plr w)))"
      by blast
    have tv: "v_timer (view (plr w))" using assms(3) by (simp add: vw)
    from spec_run_shape [OF tv, of nows] obtain evs where
      sh: "pending (plr w) = evs @ v_pending (view (plr w'))"
        "snd (spec_run nows (view (plr w))) =
           delivered (cbfn (ctx (plr w))) (cbdata (ctx (plr w))) evs @
           (if v_timer (view (plr w')) then []
            else fin_calls (finifn (ctx (plr w))) (finidata (ctx (plr w))))"
        "\<not> v_timer (view (plr w')) \<longrightarrow>
           \<not> v_running (view (plr w')) \<and> v_pending (view (plr w')) = []"
      unfolding v vw by blast
    have idle: "ev_run H later w' = Some w'" if "\<not> timer_active (plr w')"
      using that by (induction later) simp_all
    have v': "v_pending (view (plr w')) = pending (plr w')"
      "v_timer (view (plr w')) = timer_active (plr w')"
      "v_running (view (plr w')) = running (plr w')"
      by (simp_all add: view_def)
    from r sh idle show ?thesis
      unfolding v' by (intro exI [of _ w'] exI [of _ evs]) (simp add: c)
  qed
  from one run show ?thesis by (rule conjI)
qed


lemma ex_run_value:
  "map_option (\<lambda>w. (calls w, timer_active (plr w))) (ev_run H_count [Fin (25 / 2), Fin (27 / 2), Fin 14] ex_mid) =
     Some ([EvCall 1 7 (event (ex_events ! 0)), EvCall 1 7 (event (ex_events ! 1)),
            EvCall 1 7 (event (ex_events ! 2)), EvCall 1 7 (event (ex_events ! 3)),
            FinCall 2 8], False)"
  by code_simp

theorem finish_fires_once_witness:
  "ev_passive H_count \<and> fini_passive H_count \<and> timer_active (plr ex_mid) \<and>
   (\<exists>w'. ev_run H_count [Fin (25 / 2), Fin (27 / 2), Fin 14] ex_mid = Some w' \<and>
      calls w' = [EvCall 1 7 (event (ex_events ! 0)), EvCall 1 7 (event (ex_events ! 1)),
                  EvCall 1 7 (event (ex_events ! 2)), EvCall 1 7 (event (ex_events ! 3)),
                  FinCall 2 8] \<and>
      \<not> timer_active (plr w') \<and> \<not> running (plr w') \<and> pending (plr w') = [] \<and>
      ev_run H_count [Fin 15, Fin 16] w' = Some w')"
proof -
  have ta: "timer_active (plr ex_mid)" by (simp add: ex_defs)
  from finish_fires_once [OF H_count_passive ta, of 0 "[Fin (25 / 2), Fin (27 / 2), Fin 14]" "[Fin 15, Fin 16]"]
  obtain w' where
    r: "ev_run H_count [Fin (25 / 2), Fin (27 / 2), Fin 14] ex_mid = Some w'"
    and s: "\<not> timer_active (plr w') \<longrightarrow>
         \<not> running (plr w') \<and> pending (plr w') = [] \<and> ev_run H_count [Fin 15, Fin 16] w' = Some w'"
    by blast
  from ex_run_value have "calls w' = [EvCall 1 7 (event (ex_events ! 0)), EvCall 1 7 (event (ex_events ! 1)),
                  EvCall 1 7 (event (ex_events ! 2)), EvCall 1 7 (event (ex_events ! 3)),
                  FinCall 2 8]" and "\<not> timer_active (plr w')"
    unfolding r by simp_all
  with r s H_count_passive ta show ?thesis by blast
qed

section \<open>Callbacks that call back into the player\<close>















section \<open>Start and stop\<close>

text \<open>
  Claim C7. Starting a running player and stopping a stopped one change nothing, so two
  starts are one start and two stops one stop. Starting a stopped player clears the
  baseline, starts the timer and sets the running flag, and leaves \<open>timepos\<close> as it is;
  the first tick after it does not move \<open>timepos\<close> either. Stopping a running player
  clears the baseline, stops the timer and clears the flag.
\<close>

theorem start_stop_idempotent:
  assumes "running p" and "\<not> running q" and "ev_passive H" and "fini_passive H"
  shows "fmidi_player_start p = p \<and> fmidi_player_stop q = q \<and>
    fmidi_player_start (fmidi_player_start q) = fmidi_player_start q \<and>
    fmidi_player_stop (fmidi_player_stop p) = fmidi_player_stop p \<and>
    fmidi_player_start q =
      q\<lparr>timer_active := True, running := True, ctx := (ctx q)\<lparr>have_tick := False\<rparr>\<rparr> \<and>
    fmidi_player_current_time (fmidi_player_start q) = fmidi_player_current_time q \<and>
    fmidi_player_stop p =
      p\<lparr>timer_active := False, running := False, ctx := (ctx p)\<lparr>have_tick := False\<rparr>\<rparr> \<and>
    (\<exists>w'. fmidi_player_tick H now \<lparr>plr = fmidi_player_start q, user = u, calls = cs\<rparr> = Some w' \<and>
       fmidi_player_current_time (plr w') = fmidi_player_current_time q)"
proof -
  have a: "fmidi_player_start p = p" "fmidi_player_stop q = q"
    using assms(1,2) by (simp_all add: fmidi_player_start_def fmidi_player_stop_def)
  have b: "fmidi_player_start (fmidi_player_start q) = fmidi_player_start q"
    "fmidi_player_stop (fmidi_player_stop p) = fmidi_player_stop p"
    by (simp_all add: fmidi_player_start_def fmidi_player_stop_def)
  have c: "fmidi_player_start q =
      q\<lparr>timer_active := True, running := True, ctx := (ctx q)\<lparr>have_tick := False\<rparr>\<rparr>"
    "fmidi_player_stop p =
      p\<lparr>timer_active := False, running := False, ctx := (ctx p)\<lparr>have_tick := False\<rparr>\<rparr>"
    using assms(1,2) by (simp_all add: fmidi_player_start_def fmidi_player_stop_def)
  have d: "fmidi_player_current_time (fmidi_player_start q) = fmidi_player_current_time q"
    by (simp add: fmidi_player_start_def fmidi_player_current_time_def)
  define w where "w = \<lparr>plr = fmidi_player_start q, user = u, calls = cs\<rparr>"
  from tick_passive [OF assms(3,4), of now w] obtain w' where
    t: "fmidi_player_tick H now w = Some w'"
    and v: "view (plr w') = fst (spec_tick now (view (plr w)))"
    by blast
  have "v_timepos (view (plr w')) = spec_clock now (view (plr w))"
    unfolding v by (simp add: spec_tick_fields)
  also have "\<dots> = timepos (ctx q)"
    using assms(2) by (simp add: spec_clock_def view_def w_def fmidi_player_start_def)
  finally have "fmidi_player_current_time (plr w') = fmidi_player_current_time q"
    by (simp add: view_def fmidi_player_current_time_def)
  with t a b c d show ?thesis unfolding w_def by blast
qed

theorem start_stop_idempotent_witness:
  "running ex_player \<and> \<not> running (fmidi_player_stop ex_player) \<and>
   ev_passive H_count \<and> fini_passive H_count \<and>
   fmidi_player_start ex_player = ex_player \<and>
   fmidi_player_stop (fmidi_player_stop ex_player) = fmidi_player_stop ex_player \<and>
   fmidi_player_start (fmidi_player_start (fmidi_player_stop ex_player)) =
     fmidi_player_start (fmidi_player_stop ex_player)"
proof -
  have r: "running ex_player" "\<not> running (fmidi_player_stop ex_player)"
    by (simp_all add: ex_defs fmidi_player_stop_def)
  from start_stop_idempotent [OF r H_count_passive] r H_count_passive show ?thesis by blast
qed

section \<open>The finish callback\<close>

text \<open>
  Claim C9. When a tick delivers every pending event, the finish callback is called on a
  player whose timer is stopped and whose running flag is already false. A finish
  callback that asks whether the player runs is told no, and when it starts the player
  the start takes effect: after the tick the player runs with its timer started and no
  baseline.
\<close>

theorem finish_sees_stopped_player:
  assumes "ev_passive H"
    and "finifn (ctx (plr w)) = Some g"
    and "\<forall>x\<in>set (pending (plr w)). time x <
      (if have_tick (ctx (plr w))
       then timepos (ctx (plr w)) + speed (ctx (plr w)) * (now - prev_tick (ctx (plr w)))
       else timepos (ctx (plr w)))"
  shows "\<exists>w0. fmidi_player_tick H now w = Some (call_fifn H g (finidata (ctx (plr w))) w0) \<and>
    \<not> fmidi_player_running (plr w0) \<and> \<not> timer_active (plr w0) \<and>
    calls w0 = calls w @ delivered (cbfn (ctx (plr w))) (cbdata (ctx (plr w))) (pending (plr w)) \<and>
    (fifn H g = fini_restart note \<longrightarrow>
       user (call_fifn H g (finidata (ctx (plr w))) w0) = note False (user w0) \<and>
       fmidi_player_running (plr (call_fifn H g (finidata (ctx (plr w))) w0)) \<and>
       timer_active (plr (call_fifn H g (finidata (ctx (plr w))) w0)) \<and>
       \<not> have_tick (ctx (plr (call_fifn H g (finidata (ctx (plr w))) w0))))"
proof -
  define tp where "tp = spec_clock now (view (plr w))"
  have tp: "tp = (if have_tick (ctx (plr w))
       then timepos (ctx (plr w)) + speed (ctx (plr w)) * (now - prev_tick (ctx (plr w)))
       else timepos (ctx (plr w)))"
    by (simp add: tp_def spec_clock_def view_def)
  have due: "\<forall>x\<in>set (pending (plr w)). time x < tp"
    using assms(3) unfolding tp .
  have vp: "v_pending (view (plr w)) = pending (plr w)" by (simp add: view_def)
  have dw: "dropWhile (\<lambda>x. time x < tp) (pending (plr w)) = []"
    and tw: "takeWhile (\<lambda>x. time x < tp) (pending (plr w)) = pending (plr w)"
    using due by (simp_all add: takeWhile_eq_all_conv)
  have e: "v_pending (fst (spec_tick now (view (plr w)))) = []"
    "\<not> v_timer (fst (spec_tick now (view (plr w))))"
    "\<not> v_running (fst (spec_tick now (view (plr w))))"
    by (simp_all add: spec_tick_fields vp tp_def [symmetric] dw)
  from tick_ev_passive [OF assms(1), of now w] obtain w0 where
    t: "fmidi_player_tick H now w =
      Some (if v_pending (fst (spec_tick now (view (plr w)))) = [] then
              (case finifn (ctx (plr w)) of None \<Rightarrow> w0
               | Some g \<Rightarrow> call_fifn H g (finidata (ctx (plr w))) w0)
            else w0)"
    and v: "view (plr w0) = fst (spec_tick now (view (plr w)))"
    and c: "calls w0 = calls w @ delivered (cbfn (ctx (plr w))) (cbdata (ctx (plr w)))
       (takeWhile (\<lambda>x. time x < spec_clock now (view (plr w))) (pending (plr w)))"
    by blast
  have 1: "fmidi_player_tick H now w = Some (call_fifn H g (finidata (ctx (plr w))) w0)"
    unfolding t using e(1) assms(2) by simp
  have 2: "\<not> fmidi_player_running (plr w0)" "\<not> timer_active (plr w0)"
    using e(2,3) unfolding v [symmetric] by (simp_all add: view_def fmidi_player_running_def)
  have 3: "calls w0 = calls w @ delivered (cbfn (ctx (plr w))) (cbdata (ctx (plr w))) (pending (plr w))"
    using c unfolding tp_def [symmetric] tw .
  have 4: "user (call_fifn H g d w0) = note False (user w0) \<and>
       fmidi_player_running (plr (call_fifn H g d w0)) \<and>
       timer_active (plr (call_fifn H g d w0)) \<and>
       \<not> have_tick (ctx (plr (call_fifn H g d w0)))"
    if "fifn H g = fini_restart note" for d
    using 2 that
    by (simp add: call_fifn_def fini_restart_def Let_def fmidi_player_running_def
        fmidi_player_start_def)
  from 1 2 3 4 show ?thesis by blast
qed

theorem finish_sees_stopped_player_witness:
  "ev_passive H_restart \<and> finifn (ctx (plr ex_restart)) = Some 2 \<and>
   pending (plr ex_restart) = ex_events \<and>
   fifn H_restart 2 = fini_restart (#) \<and>
   (\<exists>w'. fmidi_player_tick H_restart (Fin (27 / 2)) ex_restart = Some w' \<and>
      user w' = [False] \<and> fmidi_player_running (plr w') \<and> timer_active (plr w'))"
proof -
  have p: "ev_passive H_restart" by (simp add: ev_passive_def H_restart_def)
  have f: "finifn (ctx (plr ex_restart)) = Some 2" by (simp add: ex_restart_def ex_defs)
  have pd: "pending (plr ex_restart) = ex_events"
    by (simp add: pending_def pend_def ex_restart_def ex_defs)
  have d: "\<forall>x\<in>set (pending (plr ex_restart)). time x <
      (if have_tick (ctx (plr ex_restart))
       then timepos (ctx (plr ex_restart)) +
            speed (ctx (plr ex_restart)) * (Fin (27 / 2) - prev_tick (ctx (plr ex_restart)))
       else timepos (ctx (plr ex_restart)))"
    unfolding pd by (simp add: ex_restart_def ex_defs ex_mid_clock_value double_fin_simps)
  have h: "fifn H_restart 2 = fini_restart (#)" by (simp add: H_restart_def)
  from finish_sees_stopped_player [OF p f d, of "(#)"] obtain w0 where
    "fmidi_player_tick H_restart (Fin (27 / 2)) ex_restart =
       Some (call_fifn H_restart 2 (finidata (ctx (plr ex_restart))) w0)"
    "calls w0 = calls ex_restart @
       delivered (cbfn (ctx (plr ex_restart))) (cbdata (ctx (plr ex_restart))) (pending (plr ex_restart))"
    "fifn H_restart 2 = fini_restart (#) \<longrightarrow>
       user (call_fifn H_restart 2 (finidata (ctx (plr ex_restart))) w0) = False # user w0 \<and>
       fmidi_player_running (plr (call_fifn H_restart 2 (finidata (ctx (plr ex_restart))) w0)) \<and>
       timer_active (plr (call_fifn H_restart 2 (finidata (ctx (plr ex_restart))) w0)) \<and>
       \<not> have_tick (ctx (plr (call_fifn H_restart 2 (finidata (ctx (plr ex_restart))) w0)))"
    by blast
  moreover have "map_option user (fmidi_player_tick H_restart (Fin (27 / 2)) ex_restart) = Some [False]"
    by code_simp
  ultimately show ?thesis using p f pd h by auto
qed

section \<open>Rewind\<close>

text \<open>
  Claim C8. A rewind, in either state, puts the cursor at the start, \<open>timepos\<close> at 0
  (which is what the current time then is), clears the baseline and the look-ahead event
  and leaves the running flag and the timer alone. Playback after a rewind calls the
  callbacks exactly as the first playback of the same events did: with the same speed,
  the same callbacks (which leave the player alone) and the same timer firings, the
  invocations added after the rewind are those of a new player.
\<close>

theorem rewind_replays:
  assumes "ev_passive H" and "fini_passive H" and "timer_active (plr w) = running (plr w)"
  shows "seq_pos (seq (ctx (fmidi_player_rewind (plr w)))) = 0 \<and>
    fmidi_player_current_time (fmidi_player_rewind (plr w)) = 0 \<and>
    \<not> have_tick (ctx (fmidi_player_rewind (plr w))) \<and>
    \<not> have_event (ctx (fmidi_player_rewind (plr w))) \<and>
    pending (fmidi_player_rewind (plr w)) = seq_events (seq (ctx (plr w))) \<and>
    fmidi_player_running (fmidi_player_rewind (plr w)) = fmidi_player_running (plr w) \<and>
    timer_active (fmidi_player_rewind (plr w)) = timer_active (plr w) \<and>
    (\<exists>w1 w2.
       ev_run H nows (w\<lparr>plr := fmidi_player_start (fmidi_player_rewind (plr w))\<rparr>) = Some w1 \<and>
       ev_run H nows \<lparr>plr = first_play (plr w) t0 e0, user = u0, calls = []\<rparr> = Some w2 \<and>
       calls w1 = calls w @ calls w2)"
proof -
  define p where "p = plr w"
  have fields: "seq_pos (seq (ctx (fmidi_player_rewind p))) = 0"
    "fmidi_player_current_time (fmidi_player_rewind p) = 0"
    "\<not> have_tick (ctx (fmidi_player_rewind p))"
    "\<not> have_event (ctx (fmidi_player_rewind p))"
    "pending (fmidi_player_rewind p) = seq_events (seq (ctx p))"
    "fmidi_player_running (fmidi_player_rewind p) = fmidi_player_running p"
    "timer_active (fmidi_player_rewind p) = timer_active p"
    by (simp_all add: fmidi_player_rewind_def fmidi_seq_rewind_def fmidi_player_current_time_def
        fmidi_player_running_def pending_def pend_def)
  define wa where "wa = w\<lparr>plr := fmidi_player_start (fmidi_player_rewind p)\<rparr>"
  define wb :: "'a world" where "wb = \<lparr>plr = first_play p t0 e0, user = u0, calls = []\<rparr>"
  have va: "view (plr wa) =
     \<lparr>v_pending = seq_events (seq (ctx p)), v_timepos = 0, v_speed = speed (ctx p),
      v_base = None, v_cbfn = cbfn (ctx p), v_cbdata = cbdata (ctx p),
      v_finifn = finifn (ctx p), v_finidata = finidata (ctx p),
      v_timer = True, v_running = True\<rparr>"
    using assms(3)
    by (simp add: wa_def view_def fmidi_player_start_def fmidi_player_rewind_def
        fmidi_seq_rewind_def pending_def pend_def p_def)
  have vb: "view (plr wb) = view (plr wa)"
    unfolding va
    by (simp add: wb_def view_def first_play_def fmidi_player_start_def
        fmidi_player_finish_callback_def fmidi_player_event_callback_def
        fmidi_player_set_speed_def fmidi_player_new_def fmidi_player_current_speed_def
        pending_def pend_def)
  from ev_run_passive [OF assms(1,2), of nows wa] obtain w1 where
    1: "ev_run H nows wa = Some w1" "calls w1 = calls wa @ snd (spec_run nows (view (plr wa)))"
    by blast
  from ev_run_passive [OF assms(1,2), of nows wb] obtain w2 where
    2: "ev_run H nows wb = Some w2" "calls w2 = calls wb @ snd (spec_run nows (view (plr wb)))"
    by blast
  have "calls w1 = calls w @ calls w2"
    using 1(2) 2(2) unfolding vb by (simp add: wa_def wb_def)
  with 1(1) 2(1) fields show ?thesis
    unfolding wa_def wb_def p_def by blast
qed

theorem rewind_replays_witness:
  "ev_passive H_count \<and> fini_passive H_count \<and>
   timer_active (plr rw_after) = running (plr rw_after) \<and>
   fmidi_player_current_time (fmidi_player_rewind (plr rw_after)) = 0 \<and>
   (\<exists>w1 w2.
       ev_run H_count [0, Fin (5 / 2), Fin 4]
         (rw_after\<lparr>plr := fmidi_player_start (fmidi_player_rewind (plr rw_after))\<rparr>) = Some w1 \<and>
       ev_run H_count [0, Fin (5 / 2), Fin 4]
         \<lparr>plr = first_play (plr rw_after) 0 (hd ex_events), user = 0, calls = []\<rparr> = Some w2 \<and>
       calls w1 = calls rw_after @ calls w2 \<and>
       calls w2 = [EvCall 1 7 (event (ex_events ! 0)), EvCall 1 7 (event (ex_events ! 1)),
                   EvCall 1 7 (event (ex_events ! 2)), EvCall 1 7 (event (ex_events ! 3)),
                   FinCall 2 8])"
proof -
  have r: "timer_active (plr rw_after) = running (plr rw_after)"
    by (simp add: rw_after_def)
  have "map_option calls (ev_run H_count [0, Fin (5 / 2), Fin 4]
         \<lparr>plr = first_play (plr rw_after) 0 (hd ex_events), user = 0, calls = []\<rparr>) =
       Some [EvCall 1 7 (event (ex_events ! 0)), EvCall 1 7 (event (ex_events ! 1)),
             EvCall 1 7 (event (ex_events ! 2)), EvCall 1 7 (event (ex_events ! 3)),
             FinCall 2 8]"
    by code_simp
  with rewind_replays [OF H_count_passive r, of "[0, Fin (5 / 2), Fin 4]" 0 "hd ex_events" 0]
    H_count_passive r
  show ?thesis by fastforce
qed

section \<open>Seeking\<close>

lemma nibble_less: "unat ((x :: byte) AND 0xf) < 16"
proof -
  have "x AND 0xf \<le> 0xf" by (rule word_and_le1)
  then show ?thesis by (simp add: word_le_nat_alt)
qed

lemma seven_bits_less: "unat ((x :: byte) AND 127) < 128"
proof -
  have "x AND 127 \<le> 127" by (rule word_and_le1)
  then show ?thesis by (simp add: word_le_nat_alt)
qed

lemma scan_event_length:
  "length (fst (scan_event evt pc)) = length (fst pc)"
  "length (snd (scan_event evt pc)) = length (snd pc)"
  by (simp_all add: scan_event_def Let_def)

lemma scan_event_program:
  assumes "c < 16" and "length (fst pc) = 16"
  shows "fst (scan_event evt pc) ! c =
     (if is_program_change c evt then data evt ! 1 AND 127 else fst pc ! c)"
  using assms nibble_less [of "data evt ! 0"]
  by (auto simp: scan_event_def is_program_change_def Let_def nth_list_update)

lemma control_index:
  assumes "a < (128::nat)" and "b < 128"
  shows "(x * 128 + a = y * 128 + b) = (x = y \<and> a = b)"
  using assms by (metis add.commute add_diff_cancel_left' div_mult_self3 div_less
      zero_neq_numeral add_cancel_left_left mod_mult_self3 mod_less)

lemma scan_event_control:
  assumes "c < 16" and "i < 128" and "length (snd pc) = 16 * 128"
  shows "snd (scan_event evt pc) ! (c * 128 + i) =
     (if is_control_change c i evt then data evt ! 2 AND 127 else snd pc ! (c * 128 + i))"
proof -
  have "c * 128 + i < 16 * 128" using assms(1,2) by simp
  then show ?thesis
    using assms(2,3) nibble_less [of "data evt ! 0"] seven_bits_less [of "data evt ! 1"]
    by (auto simp: scan_event_def is_control_change_def Let_def nth_list_update control_index)
qed


lemma scan_all_simps:
  "scan_all [] pc = pc"
  "scan_all (x # xs) pc = scan_all xs (scan_event (event x) pc)"
  "scan_all (xs @ [x]) pc = scan_event (event x) (scan_all xs pc)"
  by (simp_all add: scan_all_def)

lemma scan_all_length:
  "length (fst (scan_all evs pc)) = length (fst pc)"
  "length (snd (scan_all evs pc)) = length (snd pc)"
  by (induction evs arbitrary: pc) (simp_all add: scan_all_simps scan_event_length)

lemma scan_all_program:
  assumes "c < 16" and "length (fst pc) = 16" and "fst pc ! c = 0"
  shows "fst (scan_all evs pc) ! c = spec_program (map event evs) c"
proof (induction evs rule: rev_induct)
  case Nil
  show ?case using assms(3) by (simp add: scan_all_simps spec_program_def)
next
  case (snoc x xs)
  have "length (fst (scan_all xs pc)) = 16" using assms(2) by (simp add: scan_all_length)
  from scan_event_program [OF assms(1) this, of "event x"] snoc show ?case
    by (simp add: scan_all_simps spec_program_def Let_def)
qed

lemma scan_all_control:
  assumes "c < 16" and "i < 128" and "length (snd pc) = 16 * 128"
    and "snd pc ! (c * 128 + i) = 255"
  shows "snd (scan_all evs pc) ! (c * 128 + i) = spec_control (map event evs) c i"
proof (induction evs rule: rev_induct)
  case Nil
  show ?case using assms(4) by (simp add: scan_all_simps spec_control_def)
next
  case (snoc x xs)
  have "length (snd (scan_all xs pc)) = 16 * 128" using assms(3) by (simp add: scan_all_length)
  from scan_event_control [OF assms(1,2) this, of "event x"] snoc show ?case
    by (simp add: scan_all_simps spec_control_def Let_def)
qed

lemma goto_scan_fold:
  "goto_scan T s pc =
     (s\<lparr>seq_pos := seq_pos s + length (takeWhile (\<lambda>x. time x < T) (drop (seq_pos s) (seq_events s)))\<rparr>,
      scan_all (takeWhile (\<lambda>x. time x < T) (drop (seq_pos s) (seq_events s))) pc)"
proof (induction T s pc rule: goto_scan.induct)
  case (1 T s pc)
  show ?case
  proof (cases "seq_pos s < length (seq_events s)")
    case False
    then show ?thesis
      by (subst goto_scan.simps) (simp add: fmidi_seq_peek_event_def scan_all_simps)
  next
    case True
    define sq where "sq = seq_events s ! seq_pos s"
    have pk: "fmidi_seq_peek_event s = Some sq"
      using True by (simp add: fmidi_seq_peek_event_def sq_def)
    have dr: "drop (seq_pos s) (seq_events s) = sq # drop (Suc (seq_pos s)) (seq_events s)"
      using True by (simp add: sq_def Cons_nth_drop_Suc)
    show ?thesis
    proof (cases "time sq < T")
      case False
      then show ?thesis
        using pk dr by (subst goto_scan.simps) (simp add: scan_all_simps)
    next
      case lt: True
      have nx: "snd (fmidi_seq_next_event s) = s\<lparr>seq_pos := Suc (seq_pos s)\<rparr>"
        using pk by (simp add: fmidi_seq_next_event_def)
      have "goto_scan T s pc =
          goto_scan T (snd (fmidi_seq_next_event s)) (scan_event (event sq) pc)"
        using pk lt by (subst goto_scan.simps) simp
      also note "1.IH" [OF pk lt]
      finally show ?thesis
        using lt by (simp add: nx dr scan_all_simps)
    qed
  qed
qed


lemma channel_cases:
  assumes "c < (16::nat)"
  shows "c = 0 \<or> c = 1 \<or> c = 2 \<or> c = 3 \<or> c = 4 \<or> c = 5 \<or> c = 6 \<or> c = 7 \<or>
         c = 8 \<or> c = 9 \<or> c = 10 \<or> c = 11 \<or> c = 12 \<or> c = 13 \<or> c = 14 \<or> c = 15"
  using assms by presburger

lemma synth_status:
  assumes "c < 16"
  shows "(word_of_nat (push_bit 4 0b1011 OR c) :: byte) = 0xB0 + word_of_nat c"
    and "(word_of_nat (push_bit 4 0b1100 OR c) :: byte) = 0xC0 + word_of_nat c"
  using channel_cases [OF assms] by (elim disjE; simp)+

lemma synth_spec:
  assumes "c < 16"
  shows "synth 0b1011 c [i, v] = spec_cc c i v" and "synth 0b1100 c [v] = spec_pc c v"
  using synth_status [OF assms] by (simp_all add: synth_def spec_cc_def spec_pc_def)

lemma spec_status:
  assumes "c < 16"
  shows "drop_bit 4 (data (spec_cc c i v) ! 0) = 0b1011"
    and "unat (data (spec_cc c i v) ! 0 AND 0xf) = c"
    and "drop_bit 4 (data (spec_pc c v) ! 0) = 0b1100"
    and "unat (data (spec_pc c v) ! 0 AND 0xf) = c"
  using channel_cases [OF assms] by (elim disjE; simp add: spec_cc_def spec_pc_def)+


lemma emit_passive:
  assumes "ev_passive H" and "cbfn (ctx (plr w)) = Some f"
  shows "\<exists>w'. emit H evt w = Some w' \<and> plr w' = plr w \<and>
    calls w' = calls w @ [EvCall f (cbdata (ctx (plr w))) evt]"
  using assms call_evfn_passive [of H f evt "cbdata (ctx (plr w))" w]
  by (simp add: emit_def)

lemma goto_controls_passive:
  assumes "ev_passive H" and "cbfn (ctx (plr w)) = Some f"
  shows "\<exists>w'. goto_controls H controls c ids w = Some w' \<and> plr w' = plr w \<and>
    calls w' = calls w @
      map (\<lambda>i. EvCall f (cbdata (ctx (plr w))) (synth 0b1011 c [word_of_nat i, controls ! (c * 128 + i)]))
        (filter (\<lambda>i. controls ! (c * 128 + i) < 128) ids)"
  using assms(2)
proof (induction ids arbitrary: w)
  case Nil
  show ?case by simp
next
  case (Cons i ids)
  show ?case
  proof (cases "controls ! (c * 128 + i) < 128")
    case False
    then show ?thesis using Cons.IH [OF Cons.prems] by (simp add: Let_def)
  next
    case True
    from emit_passive [OF assms(1) Cons.prems,
        of "synth 0b1011 c [word_of_nat i, controls ! (c * 128 + i)]"]
    obtain w1 where
      e: "emit H (synth 0b1011 c [word_of_nat i, controls ! (c * 128 + i)]) w = Some w1"
      and p: "plr w1 = plr w"
      and cl: "calls w1 = calls w @
        [EvCall f (cbdata (ctx (plr w))) (synth 0b1011 c [word_of_nat i, controls ! (c * 128 + i)])]"
      by blast
    have "cbfn (ctx (plr w1)) = Some f" using Cons.prems p by simp
    from Cons.IH [OF this] obtain w' where
      "goto_controls H controls c ids w1 = Some w'" "plr w' = plr w1"
      "calls w' = calls w1 @
        map (\<lambda>i. EvCall f (cbdata (ctx (plr w1))) (synth 0b1011 c [word_of_nat i, controls ! (c * 128 + i)]))
          (filter (\<lambda>i. controls ! (c * 128 + i) < 128) ids)"
      by blast
    then show ?thesis
      using True e p cl by (intro exI [of _ w']) (simp add: Let_def)
  qed
qed

lemma goto_channels_passive:
  assumes "ev_passive H" and "cbfn (ctx (plr w)) = Some f"
  shows "\<exists>w'. goto_channels H programs controls cs w = Some w' \<and> plr w' = plr w \<and>
    calls w' = calls w @
      map (EvCall f (cbdata (ctx (plr w)))) (concat (map (src_block programs controls) cs))"
  using assms(2)
proof (induction cs arbitrary: w)
  case Nil
  show ?case by simp
next
  case (Cons c cs)
  define d where "d = cbdata (ctx (plr w))"
  from emit_passive [OF assms(1) Cons.prems, of "synth 0b1011 c [120, 0]"] obtain w1 where
    1: "emit H (synth 0b1011 c [120, 0]) w = Some w1" "plr w1 = plr w"
       "calls w1 = calls w @ [EvCall f d (synth 0b1011 c [120, 0])]"
    unfolding d_def by blast
  have f1: "cbfn (ctx (plr w1)) = Some f" using Cons.prems 1(2) by simp
  from emit_passive [OF assms(1) f1, of "synth 0b1011 c [121, 0]"] obtain w2 where
    2: "emit H (synth 0b1011 c [121, 0]) w1 = Some w2" "plr w2 = plr w"
       "calls w2 = calls w1 @ [EvCall f d (synth 0b1011 c [121, 0])]"
    unfolding d_def 1(2) by blast
  have f2: "cbfn (ctx (plr w2)) = Some f" using Cons.prems 2(2) by simp
  from emit_passive [OF assms(1) f2, of "synth 0b1100 c [programs ! c]"] obtain w3 where
    3: "emit H (synth 0b1100 c [programs ! c]) w2 = Some w3" "plr w3 = plr w"
       "calls w3 = calls w2 @ [EvCall f d (synth 0b1100 c [programs ! c])]"
    unfolding d_def 2(2) by blast
  have f3: "cbfn (ctx (plr w3)) = Some f" using Cons.prems 3(2) by simp
  from goto_controls_passive [OF assms(1) f3, of controls c "[0..<128]"] obtain w4 where
    4: "goto_controls H controls c [0..<128] w3 = Some w4" "plr w4 = plr w"
       "calls w4 = calls w3 @
          map (\<lambda>i. EvCall f d (synth 0b1011 c [word_of_nat i, controls ! (c * 128 + i)]))
            (filter (\<lambda>i. controls ! (c * 128 + i) < 128) [0..<128])"
    unfolding d_def 3(2) by blast
  have f4: "cbfn (ctx (plr w4)) = Some f" using Cons.prems 4(2) by simp
  from Cons.IH [OF f4] obtain w' where
    5: "goto_channels H programs controls cs w4 = Some w'" "plr w' = plr w"
       "calls w' = calls w4 @ map (EvCall f d) (concat (map (src_block programs controls) cs))"
    unfolding d_def 4(2) by blast
  have "goto_channels H programs controls (c # cs) w = Some w'"
    using 1(1) 2(1) 3(1) 4(1) 5(1) by simp
  moreover have "calls w' = calls w @
      map (EvCall f d) (concat (map (src_block programs controls) (c # cs)))"
    unfolding 5(3) 4(3) 3(3) 2(3) 1(3) by (simp add: src_block_def comp_def)
  ultimately show ?case using 5(2) unfolding d_def by blast
qed


lemma spec_control_range: "(spec_control evs c i < 128) = (spec_control evs c i \<noteq> 255)"
proof -
  have "x AND 127 < 128 \<and> x AND 127 \<noteq> 255" for x :: byte
    using seven_bits_less [of x] by (auto simp: word_less_nat_alt)
  then show ?thesis by (simp add: spec_control_def Let_def)
qed

lemma src_block_spec:
  assumes "c < 16" and "programs ! c = prog c"
    and "\<And>i. i < 128 \<Longrightarrow> controls ! (c * 128 + i) = ctl c i"
    and "\<And>i. (ctl c i < 128) = (ctl c i \<noteq> 255)"
  shows "src_block programs controls c = spec_channel_block prog ctl c"
proof -
  have "filter (\<lambda>i. controls ! (c * 128 + i) < 128) [0..<128] = filter (\<lambda>i. ctl c i \<noteq> 255) [0..<128]"
    by (rule filter_cong) (simp_all add: assms(3,4))
  moreover have "map (\<lambda>i. synth 0b1011 c [word_of_nat i, controls ! (c * 128 + i)])
        (filter (\<lambda>i. ctl c i \<noteq> 255) [0..<128]) =
      map (\<lambda>i. spec_cc c (word_of_nat i) (ctl c i)) (filter (\<lambda>i. ctl c i \<noteq> 255) [0..<128])"
    by (rule map_cong) (auto simp: synth_spec [OF assms(1)] assms(3))
  ultimately show ?thesis
    unfolding src_block_def spec_channel_block_def
    by (simp only: synth_spec [OF assms(1)] assms(2))
qed

lemma goto_time_passive:
  assumes "ev_passive H"
  shows "\<exists>w'. fmidi_player_goto_time H T w = Some w' \<and>
    plr w' = (plr w)\<lparr>ctx := (ctx (plr w))
       \<lparr>have_tick := False, have_event := False,
        seq := (seq (ctx (plr w)))
          \<lparr>seq_pos := length (takeWhile (\<lambda>x. time x < T) (seq_events (seq (ctx (plr w)))))\<rparr>,
        timepos := T\<rparr>\<rparr> \<and>
    calls w' = calls w @
      (case cbfn (ctx (plr w)) of None \<Rightarrow> []
       | Some f \<Rightarrow> map (EvCall f (cbdata (ctx (plr w))))
           (spec_reset_block
              (spec_program (map event (takeWhile (\<lambda>x. time x < T) (seq_events (seq (ctx (plr w)))))))
              (spec_control (map event (takeWhile (\<lambda>x. time x < T) (seq_events (seq (ctx (plr w)))))))))"
proof -
  define pre where "pre = takeWhile (\<lambda>x. time x < T) (seq_events (seq (ctx (plr w))))"
  define pc0 :: "byte list \<times> byte list" where "pc0 = (replicate 16 0, replicate (16 * 128) 255)"
  define p1 where "p1 = fmidi_player_rewind (plr w)"
  define r where "r = goto_scan T (seq (ctx p1)) pc0"
  define p3 where "p3 = (plr w)\<lparr>ctx := (ctx (plr w))
       \<lparr>have_tick := False, have_event := False,
        seq := (seq (ctx (plr w)))\<lparr>seq_pos := length pre\<rparr>, timepos := T\<rparr>\<rparr>"
  define w3 where "w3 = w\<lparr>plr := p3\<rparr>"
  have r: "r = ((seq (ctx (plr w)))\<lparr>seq_pos := length pre\<rparr>, scan_all pre pc0)"
    unfolding r_def goto_scan_fold
    by (simp add: p1_def fmidi_player_rewind_def fmidi_seq_rewind_def pre_def)
  have unf: "fmidi_player_goto_time H T w =
     (if cbfn (ctx p3) \<noteq> None then
        goto_channels H (fst (scan_all pre pc0)) (snd (scan_all pre pc0)) [0..<16] w3
      else Some w3)"
    unfolding fmidi_player_goto_time_def Let_def pc0_def [symmetric] p1_def [symmetric]
      r_def [symmetric]
    by (simp add: r w3_def p3_def p1_def fmidi_player_rewind_def fmidi_seq_rewind_def)
  have cb: "cbfn (ctx p3) = cbfn (ctx (plr w))" "cbdata (ctx p3) = cbdata (ctx (plr w))"
    by (simp_all add: p3_def)
  show ?thesis
  proof (cases "cbfn (ctx (plr w))")
    case None
    then show ?thesis
      unfolding unf cb pre_def [symmetric] p3_def [symmetric]
      by (intro exI [of _ w3]) (simp add: w3_def)
  next
    case (Some f)
    have f3: "cbfn (ctx (plr w3)) = Some f" using Some by (simp add: w3_def cb)
    from goto_channels_passive [OF assms f3, of "fst (scan_all pre pc0)" "snd (scan_all pre pc0)" "[0..<16]"]
    obtain w' where
      g: "goto_channels H (fst (scan_all pre pc0)) (snd (scan_all pre pc0)) [0..<16] w3 = Some w'"
      and p: "plr w' = p3"
      and cl: "calls w' = calls w @ map (EvCall f (cbdata (ctx (plr w))))
         (concat (map (src_block (fst (scan_all pre pc0)) (snd (scan_all pre pc0))) [0..<16]))"
      by (auto simp: w3_def cb)
    have blk: "src_block (fst (scan_all pre pc0)) (snd (scan_all pre pc0)) c =
        spec_channel_block (spec_program (map event pre)) (spec_control (map event pre)) c"
      if "c < 16" for c
    proof (rule src_block_spec [OF that])
      show "fst (scan_all pre pc0) ! c = spec_program (map event pre) c"
        using that by (intro scan_all_program) (simp_all add: pc0_def)
      show "snd (scan_all pre pc0) ! (c * 128 + i) = spec_control (map event pre) c i"
        if "i < 128" for i
        using \<open>c < 16\<close> that by (intro scan_all_control) (simp_all add: pc0_def)
      show "(spec_control (map event pre) c i < 128) = (spec_control (map event pre) c i \<noteq> 255)" for i
        by (rule spec_control_range)
    qed
    have meq: "map (src_block (fst (scan_all pre pc0)) (snd (scan_all pre pc0))) [0..<16] =
        map (spec_channel_block (spec_program (map event pre)) (spec_control (map event pre))) [0..<16]"
      by (rule map_cong) (simp_all add: blk)
    have cl': "calls w' = calls w @ map (EvCall f (cbdata (ctx (plr w))))
         (spec_reset_block (spec_program (map event pre)) (spec_control (map event pre)))"
      unfolding cl spec_reset_block_def meq ..
    show ?thesis
      unfolding unf cb pre_def [symmetric] p3_def [symmetric]
      using Some g p cl' by (intro exI [of _ w']) simp
  qed
qed


text \<open>
  Claim C4. A seek to \<open>T\<close> rewinds, starts from programs 0 and controllers unset, and
  scans the events whose time is strictly less than \<open>T\<close>: for every channel and
  controller the arrays hold the last program change and the last controller change among
  them, masked to seven bits. The scan stops at the first event at or after \<open>T\<close>, which
  is then the first pending event, and \<open>timepos\<close> is exactly \<open>T\<close>.
\<close>

theorem goto_time_scans:
  assumes "ev_passive H" and "c < 16" and "i < 128"
  shows "\<exists>w' programs controls.
    goto_scan T (fmidi_seq_rewind (seq (ctx (plr w)))) (replicate 16 0, replicate (16 * 128) 255) =
      (seq (ctx (plr w')), programs, controls) \<and>
    programs ! c =
      spec_program (map event (takeWhile (\<lambda>x. time x < T) (seq_events (seq (ctx (plr w)))))) c \<and>
    controls ! (c * 128 + i) =
      spec_control (map event (takeWhile (\<lambda>x. time x < T) (seq_events (seq (ctx (plr w)))))) c i \<and>
    fmidi_player_goto_time H T w = Some w' \<and>
    pending (plr w') = dropWhile (\<lambda>x. time x < T) (seq_events (seq (ctx (plr w)))) \<and>
    fmidi_player_current_time (plr w') = T \<and>
    \<not> have_tick (ctx (plr w')) \<and> \<not> have_event (ctx (plr w'))"
proof -
  define evs where "evs = seq_events (seq (ctx (plr w)))"
  define pre where "pre = takeWhile (\<lambda>x. time x < T) evs"
  define pc0 :: "byte list \<times> byte list" where "pc0 = (replicate 16 0, replicate (16 * 128) 255)"
  from goto_time_passive [OF assms(1), of T w] obtain w' where
    g: "fmidi_player_goto_time H T w = Some w'"
    and p: "plr w' = (plr w)\<lparr>ctx := (ctx (plr w))
       \<lparr>have_tick := False, have_event := False,
        seq := (seq (ctx (plr w)))\<lparr>seq_pos := length pre\<rparr>, timepos := T\<rparr>\<rparr>"
    unfolding pre_def evs_def by blast
  have sc: "goto_scan T (fmidi_seq_rewind (seq (ctx (plr w)))) pc0 =
      (seq (ctx (plr w')), fst (scan_all pre pc0), snd (scan_all pre pc0))"
    unfolding goto_scan_fold by (simp add: fmidi_seq_rewind_def p pre_def evs_def)
  have pr: "fst (scan_all pre pc0) ! c = spec_program (map event pre) c"
    using assms(2) by (intro scan_all_program) (simp_all add: pc0_def)
  have ct: "snd (scan_all pre pc0) ! (c * 128 + i) = spec_control (map event pre) c i"
    using assms(2,3) by (intro scan_all_control) (simp_all add: pc0_def)
  have "drop (length pre) evs = dropWhile (\<lambda>x. time x < T) evs"
    unfolding pre_def by (rule dropWhile_eq_drop [symmetric])
  then have pd: "pending (plr w') = dropWhile (\<lambda>x. time x < T) evs"
    by (simp add: pending_def pend_def p evs_def)
  have f: "fmidi_player_current_time (plr w') = T" "\<not> have_tick (ctx (plr w'))"
    "\<not> have_event (ctx (plr w'))"
    by (simp_all add: p fmidi_player_current_time_def)
  from sc pr ct g pd f show ?thesis
    unfolding pc0_def pre_def evs_def by blast
qed

lemma ex_prefix: "takeWhile (\<lambda>x. time x < Fin 3) ex_events = [ex_events ! 0, ex_events ! 1]"
  by (simp add: ex_events_def double_fin_simps)

lemma ex_snapshot:
  "spec_program (map event [ex_events ! 0, ex_events ! 1]) 0 = 5"
  "spec_control (map event [ex_events ! 0, ex_events ! 1]) 0 7 = 64"
  by (simp_all add: spec_program_def spec_control_def is_program_change_def
      is_control_change_def datalen_def ex_events_def)

theorem goto_time_scans_witness:
  "ev_passive H_count \<and> (0::nat) < 16 \<and> (7::nat) < 128 \<and>
   (\<exists>w' programs controls.
      goto_scan (Fin 3) (fmidi_seq_rewind (seq (ctx (plr ex_mid)))) (replicate 16 0, replicate (16 * 128) 255) =
        (seq (ctx (plr w')), programs, controls) \<and>
      programs ! 0 = 5 \<and> controls ! (0 * 128 + 7) = 64 \<and>
      fmidi_player_goto_time H_count (Fin 3) ex_mid = Some w' \<and>
      pending (plr w') = [ex_events ! 2, ex_events ! 3] \<and>
      fmidi_player_current_time (plr w') = Fin 3)"
proof -
  have e: "seq_events (seq (ctx (plr ex_mid))) = ex_events" by (simp add: ex_defs)
  have d: "dropWhile (\<lambda>x. time x < Fin 3) ex_events = [ex_events ! 2, ex_events ! 3]"
    by (simp add: ex_events_def double_fin_simps)
  from goto_time_scans [OF H_count_passive(1), of 0 7 "Fin 3" ex_mid] H_count_passive(1)
  show ?thesis
    unfolding e ex_prefix ex_snapshot d by auto
qed

lemma spec_block_channel:
  assumes "c < 16"
  shows "set (spec_channel_block prog ctl c) \<subseteq> set (spec_reset_block prog ctl)"
  using assms by (auto simp: spec_reset_block_def)

text \<open>
  Claim C5. With callbacks that leave the player alone, the end of a seek calls the
  event callback if and only if one is registered, and then with exactly the reset block
  of the snapshot: for each channel from 0 to 15 all sound off, reset all controllers,
  the program of the snapshot, then the set controllers in ascending order. The events
  of the block are channel messages of delta 0 whose status byte has the kind (1011 with
  two data bytes, 1100 with one) in the high nibble and the channel in the low one.
\<close>

theorem goto_time_sends_reset_block:
  assumes "ev_passive H"
  shows "\<exists>w'. fmidi_player_goto_time H T w = Some w' \<and>
    calls w' = calls w @
      (case cbfn (ctx (plr w)) of None \<Rightarrow> []
       | Some f \<Rightarrow> map (EvCall f (cbdata (ctx (plr w))))
           (spec_reset_block
              (spec_program (map event (takeWhile (\<lambda>x. time x < T) (seq_events (seq (ctx (plr w)))))))
              (spec_control (map event (takeWhile (\<lambda>x. time x < T) (seq_events (seq (ctx (plr w))))))))) \<and>
    (\<forall>c<16. \<forall>i v.
       type (spec_cc c i v) = fmidi_event_message \<and> delta (spec_cc c i v) = 0 \<and>
       datalen (spec_cc c i v) = 3 \<and>
       drop_bit 4 (data (spec_cc c i v) ! 0) = 0b1011 \<and>
       unat (data (spec_cc c i v) ! 0 AND 0xf) = c \<and>
       data (spec_cc c i v) ! 1 = i \<and> data (spec_cc c i v) ! 2 = v \<and>
       type (spec_pc c v) = fmidi_event_message \<and> delta (spec_pc c v) = 0 \<and>
       datalen (spec_pc c v) = 2 \<and>
       drop_bit 4 (data (spec_pc c v) ! 0) = 0b1100 \<and>
       unat (data (spec_pc c v) ! 0 AND 0xf) = c \<and>
       data (spec_pc c v) ! 1 = v)"
proof -
  from goto_time_passive [OF assms, of T w] obtain w' where
    g: "fmidi_player_goto_time H T w = Some w'"
    and c: "calls w' = calls w @
      (case cbfn (ctx (plr w)) of None \<Rightarrow> []
       | Some f \<Rightarrow> map (EvCall f (cbdata (ctx (plr w))))
           (spec_reset_block
              (spec_program (map event (takeWhile (\<lambda>x. time x < T) (seq_events (seq (ctx (plr w)))))))
              (spec_control (map event (takeWhile (\<lambda>x. time x < T) (seq_events (seq (ctx (plr w)))))))))"
    by blast
  have enc: "type (spec_cc k i v) = fmidi_event_message \<and> delta (spec_cc k i v) = 0 \<and>
       datalen (spec_cc k i v) = 3 \<and>
       drop_bit 4 (data (spec_cc k i v) ! 0) = 0b1011 \<and>
       unat (data (spec_cc k i v) ! 0 AND 0xf) = k \<and>
       data (spec_cc k i v) ! 1 = i \<and> data (spec_cc k i v) ! 2 = v \<and>
       type (spec_pc k v) = fmidi_event_message \<and> delta (spec_pc k v) = 0 \<and>
       datalen (spec_pc k v) = 2 \<and>
       drop_bit 4 (data (spec_pc k v) ! 0) = 0b1100 \<and>
       unat (data (spec_pc k v) ! 0 AND 0xf) = k \<and>
       data (spec_pc k v) ! 1 = v"
    if "k < 16" for k i v
    using spec_status(1,2) [OF that, of i v] spec_status(3,4) [OF that, of v]
    by (simp add: datalen_def) (simp add: spec_cc_def spec_pc_def)
  from g c enc show ?thesis by blast
qed

lemma ex_block:
  "take 4 (spec_reset_block (spec_program (map event [ex_events ! 0, ex_events ! 1]))
             (spec_control (map event [ex_events ! 0, ex_events ! 1]))) =
     [spec_cc 0 120 0, spec_cc 0 121 0, spec_pc 0 5, spec_cc 0 7 64]"
  "length (spec_reset_block (spec_program (map event [ex_events ! 0, ex_events ! 1]))
             (spec_control (map event [ex_events ! 0, ex_events ! 1]))) = 49"
  by code_simp+

theorem goto_time_sends_reset_block_witness:
  "ev_passive H_count \<and>
   (\<exists>w'. fmidi_player_goto_time H_count (Fin 3) ex_mid = Some w' \<and>
      take 4 (calls w') =
        [EvCall 1 7 (spec_cc 0 120 0), EvCall 1 7 (spec_cc 0 121 0),
         EvCall 1 7 (spec_pc 0 5), EvCall 1 7 (spec_cc 0 7 64)] \<and>
      length (calls w') = 49)"
proof -
  have e: "seq_events (seq (ctx (plr ex_mid))) = ex_events" "calls ex_mid = []"
    "cbfn (ctx (plr ex_mid)) = Some 1" "cbdata (ctx (plr ex_mid)) = 7"
    by (simp_all add: ex_defs)
  from goto_time_sends_reset_block [OF H_count_passive(1), of "Fin 3" ex_mid] obtain w' where
    g: "fmidi_player_goto_time H_count (Fin 3) ex_mid = Some w'"
    and c: "calls w' = map (EvCall 1 7)
        (spec_reset_block (spec_program (map event [ex_events ! 0, ex_events ! 1]))
           (spec_control (map event [ex_events ! 0, ex_events ! 1])))"
    unfolding e ex_prefix by auto
  have "take 4 (calls w') =
        [EvCall 1 7 (spec_cc 0 120 0), EvCall 1 7 (spec_cc 0 121 0),
         EvCall 1 7 (spec_pc 0 5), EvCall 1 7 (spec_cc 0 7 64)]"
    unfolding c take_map ex_block by simp
  moreover have "length (calls w') = 49"
    unfolding c by (simp only: length_map ex_block)
  ultimately show ?thesis using g H_count_passive(1) by blast
qed

text \<open>
  Claim C10. With callbacks that leave the player alone, a seek returns and changes
  neither the running flag, the timer, the speed nor the registered callbacks; the
  position is the target afterwards. A registered event callback receives, for every
  channel, all sound off, reset all controllers and a program change, whatever the
  target; when no event lies before the target these 48 events, with program 0, are all
  it receives.
\<close>

theorem goto_time_frame:
  assumes "ev_passive H"
  shows "\<exists>w'. fmidi_player_goto_time H T w = Some w' \<and>
    fmidi_player_running (plr w') = fmidi_player_running (plr w) \<and>
    timer_active (plr w') = timer_active (plr w) \<and>
    timer_repeat (plr w') = timer_repeat (plr w) \<and>
    fmidi_player_current_speed (plr w') = fmidi_player_current_speed (plr w) \<and>
    cbfn (ctx (plr w')) = cbfn (ctx (plr w)) \<and> cbdata (ctx (plr w')) = cbdata (ctx (plr w)) \<and>
    finifn (ctx (plr w')) = finifn (ctx (plr w)) \<and>
    finidata (ctx (plr w')) = finidata (ctx (plr w)) \<and>
    fmidi_player_current_time (plr w') = T \<and>
    (\<forall>f. cbfn (ctx (plr w)) = Some f \<longrightarrow>
       (\<forall>c<16. \<exists>v.
          {EvCall f (cbdata (ctx (plr w))) (spec_cc c 120 0),
           EvCall f (cbdata (ctx (plr w))) (spec_cc c 121 0),
           EvCall f (cbdata (ctx (plr w))) (spec_pc c v)}
          \<subseteq> set (drop (length (calls w)) (calls w'))) \<and>
       ((\<forall>x\<in>set (seq_events (seq (ctx (plr w)))). T \<le> time x) \<longrightarrow>
          calls w' = calls w @ map (EvCall f (cbdata (ctx (plr w))))
            (concat (map (\<lambda>c. [spec_cc c 120 0, spec_cc c 121 0, spec_pc c 0]) [0..<16]))))"
proof -
  define pre where "pre = takeWhile (\<lambda>x. time x < T) (seq_events (seq (ctx (plr w))))"
  define prog where "prog = spec_program (map event pre)"
  define ctl where "ctl = spec_control (map event pre)"
  define d where "d = cbdata (ctx (plr w))"
  from goto_time_passive [OF assms, of T w] obtain w' where
    g: "fmidi_player_goto_time H T w = Some w'"
    and p: "plr w' = (plr w)\<lparr>ctx := (ctx (plr w))
       \<lparr>have_tick := False, have_event := False,
        seq := (seq (ctx (plr w)))\<lparr>seq_pos := length pre\<rparr>, timepos := T\<rparr>\<rparr>"
    and c: "calls w' = calls w @
      (case cbfn (ctx (plr w)) of None \<Rightarrow> []
       | Some f \<Rightarrow> map (EvCall f d) (spec_reset_block prog ctl))"
    unfolding pre_def prog_def ctl_def d_def by blast
  have frame: "fmidi_player_running (plr w') = fmidi_player_running (plr w)"
    "timer_active (plr w') = timer_active (plr w)"
    "timer_repeat (plr w') = timer_repeat (plr w)"
    "fmidi_player_current_speed (plr w') = fmidi_player_current_speed (plr w)"
    "cbfn (ctx (plr w')) = cbfn (ctx (plr w))" "cbdata (ctx (plr w')) = cbdata (ctx (plr w))"
    "finifn (ctx (plr w')) = finifn (ctx (plr w))"
    "finidata (ctx (plr w')) = finidata (ctx (plr w))"
    "fmidi_player_current_time (plr w') = T"
    by (simp_all add: p fmidi_player_running_def fmidi_player_current_speed_def
        fmidi_player_current_time_def)
  have blk: "\<exists>v. {EvCall f d (spec_cc k 120 0), EvCall f d (spec_cc k 121 0), EvCall f d (spec_pc k v)}
          \<subseteq> set (drop (length (calls w)) (calls w'))"
    if "cbfn (ctx (plr w)) = Some f" and "k < 16" for f k
  proof -
    have "set (drop (length (calls w)) (calls w')) = EvCall f d ` set (spec_reset_block prog ctl)"
      using that(1) by (simp add: c)
    moreover have "{spec_cc k 120 0, spec_cc k 121 0, spec_pc k (prog k)} \<subseteq> set (spec_reset_block prog ctl)"
      using spec_block_channel [OF that(2), of prog ctl] by (simp add: spec_channel_block_def)
    ultimately show ?thesis by (intro exI [of _ "prog k"]) auto
  qed
  have early: "calls w' = calls w @ map (EvCall f d)
            (concat (map (\<lambda>c. [spec_cc c 120 0, spec_cc c 121 0, spec_pc c 0]) [0..<16]))"
    if "cbfn (ctx (plr w)) = Some f" and "\<forall>x\<in>set (seq_events (seq (ctx (plr w)))). T \<le> time x" for f
  proof -
    have "pre = []"
      using that(2) unfolding pre_def
      by (cases "seq_events (seq (ctx (plr w)))") (auto dest: double_le_not_less)
    then have "prog k = 0" "ctl k i = 255" for k i
      by (simp_all add: prog_def ctl_def spec_program_def spec_control_def)
    then have "spec_channel_block prog ctl = (\<lambda>c. [spec_cc c 120 0, spec_cc c 121 0, spec_pc c 0])"
      by (intro ext) (simp add: spec_channel_block_def)
    then show ?thesis using that(1) by (simp add: c spec_reset_block_def)
  qed
  from g frame blk early show ?thesis
    unfolding d_def by (intro exI [of _ w']) blast
qed

theorem goto_time_frame_witness:
  "ev_passive H_count \<and> cbfn (ctx (plr ex_mid)) = Some 1 \<and> (3::nat) < 16 \<and>
   seq_events (seq (ctx (plr ex_mid))) = ex_events \<and>
   (\<exists>w'. fmidi_player_goto_time H_count 0 ex_mid = Some w' \<and>
      fmidi_player_running (plr w') \<and> timer_active (plr w') \<and>
      fmidi_player_current_time (plr w') = 0 \<and>
      length (calls w') = 48 \<and>
      (\<exists>v. {EvCall 1 7 (spec_cc 3 120 0), EvCall 1 7 (spec_cc 3 121 0), EvCall 1 7 (spec_pc 3 v)}
            \<subseteq> set (calls w')))"
proof -
  have e: "cbfn (ctx (plr ex_mid)) = Some 1" "cbdata (ctx (plr ex_mid)) = 7" "calls ex_mid = []"
    "fmidi_player_running (plr ex_mid)" "timer_active (plr ex_mid)"
    by (simp_all add: ex_defs fmidi_player_running_def)
  have t: "\<forall>x\<in>set (seq_events (seq (ctx (plr ex_mid)))). 0 \<le> time x"
    by (simp add: ex_defs double_fin_simps)
  from goto_time_frame [OF H_count_passive(1), of 0 ex_mid] obtain w' where
    g: "fmidi_player_goto_time H_count 0 ex_mid = Some w'"
    and r: "fmidi_player_running (plr w')" "timer_active (plr w')"
      "fmidi_player_current_time (plr w') = 0"
    and b: "\<forall>c<16. \<exists>v. {EvCall 1 7 (spec_cc c 120 0), EvCall 1 7 (spec_cc c 121 0),
        EvCall 1 7 (spec_pc c v)} \<subseteq> set (drop (length (calls ex_mid)) (calls w'))"
    and c: "calls w' = calls ex_mid @ map (EvCall 1 7)
        (concat (map (\<lambda>c. [spec_cc c 120 0, spec_cc c 121 0, spec_pc c 0]) [0..<16]))"
    using e t by auto
  have len: "length (concat (map (\<lambda>c. [spec_cc c 120 0, spec_cc c 121 0, spec_pc c 0]) xs)) =
      3 * length xs" for xs :: "nat list"
    by (induction xs) simp_all
  have n: "length (calls w') = 48"
    unfolding c e by (simp only: append_Nil length_map len length_upt)
  have "(3::nat) < 16" by simp
  from b [rule_format, OF this]
  have "\<exists>v. {EvCall 1 7 (spec_cc 3 120 0), EvCall 1 7 (spec_cc 3 121 0),
        EvCall 1 7 (spec_pc 3 v)} \<subseteq> set (drop (length (calls ex_mid)) (calls w'))" .
  then have s: "\<exists>v. {EvCall 1 7 (spec_cc 3 120 0), EvCall 1 7 (spec_cc 3 121 0),
        EvCall 1 7 (spec_pc 3 v)} \<subseteq> set (calls w')"
    unfolding e by (simp only: list.size drop_0)
  have main: "\<exists>w'. fmidi_player_goto_time H_count 0 ex_mid = Some w' \<and>
      fmidi_player_running (plr w') \<and> timer_active (plr w') \<and>
      fmidi_player_current_time (plr w') = 0 \<and>
      length (calls w') = 48 \<and>
      (\<exists>v. {EvCall 1 7 (spec_cc 3 120 0), EvCall 1 7 (spec_cc 3 121 0), EvCall 1 7 (spec_pc 3 v)}
            \<subseteq> set (calls w'))"
    by (rule exI [of _ w'], intro conjI) (fact g r n s)+
  have k: "(3::nat) < 16" by simp
  have ev: "seq_events (seq (ctx (plr ex_mid))) = ex_events" by (simp add: ex_defs)
  show ?thesis
    by (intro conjI) (fact H_count_passive(1) e(1) k ev main)+
qed

end
